theory Spec2Isabelle
  imports Main "HOL-Library.Word"
begin

unbundle bit_operations_syntax

text \<open>
  A shallow embedding of the Go package \<open>rfc6979\<close> (deterministic DSA and ECDSA
  signatures after RFC 6979): the conversions \<open>bits2int\<close>, \<open>int2octets\<close> and
  \<open>bits2octets\<close>, the generator \<open>generateSecret\<close> of the per-signature secret, and the
  signers \<open>SignDSA\<close> and \<open>SignECDSA\<close> with \<open>hashToInt\<close>. Each Go function is a HOL
  function of the same name; the loops of \<open>generateSecret\<close>, which need not end, are
  partial functions with an option result; a run-time panic is a value of the result.
  The functions of math/big, the MAC and the curve are not part of the package: the
  former are modelled after their documentation, the latter are parameters.
\<close>

section \<open>Data\<close>

text \<open>
  A Go \<open>[]byte\<close> is a list of 8-bit words, a \<open>*big.Int\<close> that is not nil is an
  \<open>int\<close>, and a \<open>*big.Int\<close> that may be nil is an \<open>int option\<close>. Go's \<open>int\<close> is
  modelled as \<open>int\<close> where the source takes it as a parameter (\<open>qlen\<close>, \<open>rolen\<close>) and as
  \<open>nat\<close> where it is a length or a bit length; the 64-bit bound of Go's \<open>int\<close> is
  not modelled (no slice is long enough to reach it).
\<close>

type_synonym byte = "8 word"
type_synonym bytes = "byte list"

text \<open>The run-time panics the code can raise, and the one error value it returns.\<close>

datatype panic =
    NegativeLen   \<comment> \<open>\<open>make([]byte, n)\<close> with \<open>n < 0\<close>\<close>
  | NilDeref      \<comment> \<open>a method of \<open>big.Int\<close> applied to a nil pointer\<close>
  | DivByZero     \<comment> \<open>\<open>Mod\<close> with modulus 0\<close>

datatype sign_error = ErrInvalidPublicKey

section \<open>The operations of math/big and the Go builtins the code calls\<close>

text \<open>\<open>new(big.Int).SetBytes(b)\<close>: \<open>b\<close> read as a big-endian unsigned integer.\<close>

definition SetBytes :: "bytes \<Rightarrow> int" where
  "SetBytes b = foldl (\<lambda>a x. a * 256 + uint x) 0 b"

text \<open>\<open>v.Bytes()\<close>: the absolute value of \<open>v\<close> as a big-endian byte slice without
  leading zero bytes (the empty slice for 0).\<close>

function nat_bytes :: "nat \<Rightarrow> bytes" where
  "nat_bytes n = (if n = 0 then [] else nat_bytes (n div 256) @ [of_nat (n mod 256)])"
  by pat_completeness auto
termination
  by (relation "measure id") auto

definition Bytes :: "int \<Rightarrow> bytes" where
  "Bytes v = nat_bytes (nat \<bar>v\<bar>)"

text \<open>\<open>v.BitLen()\<close>: the length of the absolute value of \<open>v\<close> in bits (0 for 0).\<close>

function nat_bitlen :: "nat \<Rightarrow> nat" where
  "nat_bitlen n = (if n = 0 then 0 else Suc (nat_bitlen (n div 2)))"
  by pat_completeness auto
termination
  by (relation "measure id") auto

definition BitLen :: "int \<Rightarrow> nat" where
  "BitLen v = nat_bitlen (nat \<bar>v\<bar>)"

text \<open>\<open>new(big.Int).Rsh(v, n)\<close>: the arithmetic shift \<open>v >> n\<close>.\<close>

definition Rsh :: "int \<Rightarrow> nat \<Rightarrow> int" where
  "Rsh v n = drop_bit n v"

text \<open>\<open>z.Mod(x, m)\<close>: the Euclidean modulus, in \<open>[0, |m|)\<close>; a run-time panic
  when \<open>m = 0\<close>.\<close>

definition Mod :: "int \<Rightarrow> int \<Rightarrow> panic + int" where
  "Mod x m = (if m = 0 then Inl DivByZero else Inr (x mod \<bar>m\<bar>))"

text \<open>\<open>new(big.Int).ModInverse(g, n)\<close>: the inverse of \<open>g\<close> in the ring of
  integers modulo \<open>n\<close>, in \<open>[0, |n|)\<close>; nil when there is none. The code calls it
  with \<open>1 \<le> g < n\<close> only.\<close>

definition ModInverse :: "int \<Rightarrow> int \<Rightarrow> int option" where
  "ModInverse g n =
     List.find (\<lambda>z. (g * z) mod \<bar>n\<bar> = 1 mod \<bar>n\<bar>) (map int [0 ..< nat \<bar>n\<bar>])"

text \<open>\<open>new(big.Int).Exp(x, y, m)\<close>: \<open>x ** y mod |m|\<close>; for \<open>m = 0\<close> the power
  itself, and 1 when \<open>y \<le> 0\<close>; for \<open>y < 0\<close> and \<open>m \<noteq> 0\<close> the power of the inverse
  of \<open>x\<close>, nil when there is none. The code calls it with \<open>y \<ge> 1\<close> only.\<close>

definition Exp :: "int \<Rightarrow> int \<Rightarrow> int \<Rightarrow> int option" where
  "Exp x y m =
     (if m = 0 then (if y \<le> 0 then Some 1 else Some (x ^ nat y))
      else if y < 0 then
        (case ModInverse x m of
           None \<Rightarrow> None
         | Some xi \<Rightarrow> Some ((xi ^ nat (- y)) mod \<bar>m\<bar>))
      else Some ((x ^ nat y) mod \<bar>m\<bar>))"

text \<open>\<open>make([]byte, n)\<close>: \<open>n\<close> zero bytes; a run-time panic when \<open>n\<close> is negative.\<close>

definition make_bytes :: "int \<Rightarrow> panic + bytes" where
  "make_bytes n = (if n < 0 then Inl NegativeLen else Inr (replicate (nat n) 0))"

text \<open>\<open>copy(dst, src)\<close>: the first \<open>min (len dst) (len src)\<close> bytes of \<open>dst\<close> are
  overwritten with those of \<open>src\<close>; the value is \<open>dst\<close> after the call.\<close>

definition copy :: "bytes \<Rightarrow> bytes \<Rightarrow> bytes" where
  "copy dst src = (let n = min (length dst) (length src) in take n src @ drop n dst)"

section \<open>The conversions of rfc6979.go\<close>

text \<open>
  \<^verbatim>\<open>
  func bits2int(in []byte, qlen int) *big.Int {
      vlen := len(in) * 8
      v := new(big.Int).SetBytes(in)
      if vlen > qlen {
          v = new(big.Int).Rsh(v, uint(vlen-qlen))
      }
      return v
  }
  \<close>
\<close>

definition bits2int :: "bytes \<Rightarrow> int \<Rightarrow> int" where
  "bits2int inp qlen =
     (let vlen = int (length inp) * 8;
          v = SetBytes inp
      in if vlen > qlen then Rsh v (nat (vlen - qlen)) else v)"

text \<open>
  \<^verbatim>\<open>
  func int2octets(v *big.Int, rolen int) []byte {
      out := v.Bytes()
      if len(out) < rolen {
          out2 := make([]byte, rolen)
          copy(out2[rolen-len(out):], out)
          return out2
      }
      if len(out) > rolen {
          out2 := make([]byte, rolen)
          copy(out2, out[len(out)-rolen:])
          return out2
      }
      return out
  }
  \<close>
  In the first branch \<open>copy\<close> writes through the slice \<open>out2[rolen-len(out):]\<close>, which
  shares its array with \<open>out2\<close>: \<open>out2\<close> keeps its first \<open>rolen - len(out)\<close> bytes and
  the rest is what \<open>copy\<close> leaves. In the second branch \<open>make\<close> is evaluated before the
  slice expression, so a negative \<open>rolen\<close> panics there.
\<close>

definition int2octets :: "int \<Rightarrow> int \<Rightarrow> panic + bytes" where
  "int2octets v rolen =
     (let out = Bytes v in
      if int (length out) < rolen then
        (case make_bytes rolen of
           Inl p \<Rightarrow> Inl p
         | Inr out2 \<Rightarrow>
             let off = nat (rolen - int (length out))
             in Inr (take off out2 @ copy (drop off out2) out))
      else if int (length out) > rolen then
        (case make_bytes rolen of
           Inl p \<Rightarrow> Inl p
         | Inr out2 \<Rightarrow> Inr (copy out2 (drop (nat (int (length out) - rolen)) out)))
      else Inr out)"

text \<open>
  \<^verbatim>\<open>
  func bits2octets(in []byte, q *big.Int, qlen, rolen int) []byte {
      z1 := bits2int(in, qlen)
      z2 := new(big.Int).Sub(z1, q)
      if z2.Sign() < 0 {
          return int2octets(z1, rolen)
      }
      return int2octets(z2, rolen)
  }
  \<close>
\<close>

definition bits2octets :: "bytes \<Rightarrow> int \<Rightarrow> int \<Rightarrow> int \<Rightarrow> panic + bytes" where
  "bits2octets inp q qlen rolen =
     (let z1 = bits2int inp qlen;
          z2 = z1 - q
      in if z2 < 0 then int2octets z1 rolen else int2octets z2 rolen)"

section \<open>The deterministic secret generator\<close>

text \<open>
  A \<open>HashAlgorithm\<close> is used through two operations only: the size of its digests,
  \<open>alg().Size()\<close> (a number of bytes, never negative), and \<open>alg.mac(k, m)\<close>, the HMAC
  of crypto/hmac over it. Both are provided from outside the package and are the
  fields of the record; nothing is assumed of them, so the MAC need not return
  \<open>Size\<close> bytes.
\<close>

record HashAlgorithm =
  Size :: nat
  hmac :: "bytes \<Rightarrow> bytes \<Rightarrow> bytes"

definition mac :: "HashAlgorithm \<Rightarrow> bytes \<Rightarrow> bytes \<Rightarrow> bytes" where
  "mac alg k m = hmac alg k m"

text \<open>
  Step H2, the inner loop, started with \<open>t\<close> empty:
  \<^verbatim>\<open>
  for len(t) < qlen/8 {
      v = alg.mac(k, v)
      t = append(t, v...)
  }
  \<close>
  It runs forever when the MAC returns empty strings, hence the option.
\<close>

partial_function (option) stepH2 ::
  "HashAlgorithm \<Rightarrow> bytes \<Rightarrow> nat \<Rightarrow> bytes \<Rightarrow> bytes \<Rightarrow> (bytes \<times> bytes) option" where
  "stepH2 alg k qlen t v =
     (if length t < qlen div 8
      then (let v' = mac alg k v in stepH2 alg k qlen (t @ v') v')
      else Some (t, v))"

text \<open>
  The first statements of the body of the main loop: Step H1 (\<open>t\<close> empty), Step H2
  and \<open>secret := bits2int(t, qlen)\<close>. The value is \<open>secret\<close> with the new \<open>v\<close>.
\<close>

definition stepH :: "HashAlgorithm \<Rightarrow> bytes \<Rightarrow> nat \<Rightarrow> bytes \<Rightarrow> (int \<times> bytes) option" where
  "stepH alg k qlen v =
     (case stepH2 alg k qlen [] v of
        None \<Rightarrow> None
      | Some (t, v') \<Rightarrow> Some (bits2int t (int qlen), v'))"

text \<open>
  The main loop:
  \<^verbatim>\<open>
  for {
      t := make([]byte, 0)
      for len(t) < qlen/8 { ... }
      secret := bits2int(t, qlen)
      if secret.Cmp(big.NewInt(1)) >= 0 && secret.Cmp(q) < 0 && test(secret) {
          return
      }
      k = alg.mac(k, append(v, 0x00))
      v = alg.mac(k, v)
  }
  \<close>
  The closure \<open>test\<close> may write the variables it captures and may panic: it takes the
  state \<open>c\<close> of those variables and gives a panic, or its verdict with their new state.
  The conjunction is evaluated left to right and stops at the first false conjunct.
  The Go function returns nothing; the value of the model is the candidate accepted
  (the local \<open>secret\<close> at the \<open>return\<close>) with the state of the captured variables,
  \<open>Inl\<close> for a panic, and \<open>None\<close> when the loop never ends.
\<close>

partial_function (option) generateLoop ::
  "int \<Rightarrow> nat \<Rightarrow> HashAlgorithm \<Rightarrow> (int \<Rightarrow> 'c \<Rightarrow> panic + bool \<times> 'c) \<Rightarrow>
     bytes \<Rightarrow> bytes \<Rightarrow> 'c \<Rightarrow> (panic + int \<times> 'c) option" where
  "generateLoop q qlen alg test k v c =
     (case stepH alg k qlen v of
        None \<Rightarrow> None
      | Some (secret, v') \<Rightarrow>
          (case (if 1 \<le> secret \<and> secret < q then test secret c else Inr (False, c)) of
             Inl p \<Rightarrow> Some (Inl p)
           | Inr (ok, c') \<Rightarrow>
               if ok then Some (Inr (secret, c'))
               else (let k' = mac alg k (v' @ [0]);
                         v'' = mac alg k' v'
                     in generateLoop q qlen alg test k' v'' c')))"

declare stepH2.simps [code] generateLoop.simps [code]

text \<open>
  \<^verbatim>\<open>
  func generateSecret(q, x *big.Int, alg HashAlgorithm, hash []byte, test func(*big.Int) bool) {
      // Step A
      qlen := q.BitLen()
      holen := alg().Size()
      rolen := (qlen + 7) >> 3
      // Step B
      v := bytes.Repeat([]byte{0x01}, holen)
      // Step C
      k := bytes.Repeat([]byte{0x00}, holen)
      // Step D
      b := int2octets(x, rolen)
      bh := bits2octets(hash, q, qlen, rolen)
      bx := append(b, bh...)
      k = alg.mac(k, append(append(v, 0x00), bx...))
      // Step E
      v = alg.mac(k, v)
      // Step F
      k = alg.mac(k, append(append(v, 0x01), bx...))
      // Step G
      v = alg.mac(k, v)
      for { ... }
  }
  \<close>
  Steps A to G give the \<open>k\<close> and \<open>v\<close> the main loop starts with, or the panic of a
  conversion; \<open>generateSecret\<close> is these steps followed by the main loop.
\<close>

definition stepsAtoG :: "int \<Rightarrow> int \<Rightarrow> HashAlgorithm \<Rightarrow> bytes \<Rightarrow> panic + bytes \<times> bytes" where
  "stepsAtoG q x alg hash =
     (let qlen = BitLen q;
          holen = Size alg;
          rolen = drop_bit 3 (qlen + 7);
          v0 = replicate holen (1 :: byte);
          k0 = replicate holen (0 :: byte)
      in case int2octets x (int rolen) of
           Inl p \<Rightarrow> Inl p
         | Inr b \<Rightarrow>
            (case bits2octets hash q (int qlen) (int rolen) of
               Inl p \<Rightarrow> Inl p
             | Inr bh \<Rightarrow>
                 let bx = b @ bh;
                     k1 = mac alg k0 ((v0 @ [0]) @ bx);
                     v1 = mac alg k1 v0;
                     k2 = mac alg k1 ((v1 @ [1]) @ bx);
                     v2 = mac alg k2 v1
                 in Inr (k2, v2)))"

definition generateSecret ::
  "int \<Rightarrow> int \<Rightarrow> HashAlgorithm \<Rightarrow> bytes \<Rightarrow> (int \<Rightarrow> 'c \<Rightarrow> panic + bool \<times> 'c) \<Rightarrow> 'c \<Rightarrow>
     (panic + int \<times> 'c) option" where
  "generateSecret q x alg hash test c =
     (case stepsAtoG q x alg hash of
        Inl p \<Rightarrow> Some (Inl p)
      | Inr (k, v) \<Rightarrow> generateLoop q (BitLen q) alg test k v c)"

section \<open>The signers\<close>

text \<open>
  The fields of \<open>dsa.PrivateKey\<close> the code reads: the parameters \<open>P\<close>, \<open>Q\<close>, \<open>G\<close> and the
  private scalar \<open>X\<close>, none of them nil.
\<close>

record dsa_PrivateKey =
  P :: int
  Q :: int
  G :: int
  X :: int

text \<open>
  The closure \<open>SignDSA\<close> passes to \<open>generateSecret\<close>; it captures the results \<open>r\<close> and
  \<open>s\<close> of \<open>SignDSA\<close>, nil until assigned:
  \<^verbatim>\<open>
  func(k *big.Int) bool {
      kInv := new(big.Int).ModInverse(k, priv.Q)
      r = new(big.Int).Exp(priv.G, k, priv.P)
      r.Mod(r, priv.Q)
      if r.Sign() == 0 {
          return false
      }
      z := new(big.Int).SetBytes(hash)
      s = new(big.Int).Mul(priv.X, r)
      s.Add(s, z)
      s.Mod(s, priv.Q)
      s.Mul(s, kInv)
      s.Mod(s, priv.Q)
      return s.Sign() != 0
  }
  \<close>
\<close>

definition dsaTest ::
  "dsa_PrivateKey \<Rightarrow> bytes \<Rightarrow> int \<Rightarrow> int option \<times> int option \<Rightarrow>
     panic + bool \<times> (int option \<times> int option)" where
  "dsaTest priv hash k = (\<lambda>(r, s).
     let kInv = ModInverse k (Q priv) in
     case Exp (G priv) k (P priv) of
       None \<Rightarrow> Inl NilDeref
     | Some r1 \<Rightarrow>
        (case Mod r1 (Q priv) of
           Inl p \<Rightarrow> Inl p
         | Inr r2 \<Rightarrow>
             if r2 = 0 then Inr (False, (Some r2, s))
             else
               (let z = SetBytes hash;
                    s1 = X priv * r2;
                    s2 = s1 + z
                in case Mod s2 (Q priv) of
                     Inl p \<Rightarrow> Inl p
                   | Inr s3 \<Rightarrow>
                      (case kInv of
                         None \<Rightarrow> Inl NilDeref
                       | Some ki \<Rightarrow>
                          (case Mod (s3 * ki) (Q priv) of
                             Inl p \<Rightarrow> Inl p
                           | Inr s5 \<Rightarrow> Inr (s5 \<noteq> 0, (Some r2, Some s5)))))))"

text \<open>
  \<^verbatim>\<open>
  func SignDSA(priv *dsa.PrivateKey, hash []byte, alg HashAlgorithm) (r, s *big.Int, err error) {
      n := priv.Q.BitLen()
      if n&7 != 0 {
          err = dsa.ErrInvalidPublicKey
          return
      }
      n >>= 3
      generateSecret(priv.Q, priv.X, alg, hash, func(k *big.Int) bool { ... })
      return
  }
  \<close>
  The value is the triple of the named results; \<open>n\<close> is not read after the shift.
\<close>

definition SignDSA ::
  "dsa_PrivateKey \<Rightarrow> bytes \<Rightarrow> HashAlgorithm \<Rightarrow>
     (panic + int option \<times> int option \<times> sign_error option) option" where
  "SignDSA priv hash alg =
     (let n = int (BitLen (Q priv)) in
      if n AND 7 \<noteq> 0 then Some (Inr (None, None, Some ErrInvalidPublicKey))
      else
        (case generateSecret (Q priv) (X priv) alg hash (dsaTest priv hash) (None, None) of
           None \<Rightarrow> None
         | Some (Inl p) \<Rightarrow> Some (Inl p)
         | Some (Inr (secret, (r, s))) \<Rightarrow> Some (Inr (r, s, None))))"

text \<open>
  An \<open>elliptic.Curve\<close> is used through the order \<open>c.Params().N\<close> and
  \<open>ScalarBaseMult\<close>, which gives the two coordinates of a point, neither nil.
  Of \<open>ecdsa.PrivateKey\<close> the code reads the curve and the private scalar \<open>D\<close>.
\<close>

record Curve =
  N :: int
  ScalarBaseMult :: "bytes \<Rightarrow> int \<times> int"

record ecdsa_PrivateKey =
  PublicKey_Curve :: Curve
  D :: int

text \<open>
  \<^verbatim>\<open>
  func hashToInt(hash []byte, c elliptic.Curve) *big.Int {
      orderBits := c.Params().N.BitLen()
      orderBytes := (orderBits + 7) / 8
      if len(hash) > orderBytes {
          hash = hash[:orderBytes]
      }
      ret := new(big.Int).SetBytes(hash)
      excess := len(hash)*8 - orderBits
      if excess > 0 {
          ret.Rsh(ret, uint(excess))
      }
      return ret
  }
  \<close>
\<close>

definition hashToInt :: "bytes \<Rightarrow> Curve \<Rightarrow> int" where
  "hashToInt hash c =
     (let orderBits = BitLen (N c);
          orderBytes = (orderBits + 7) div 8;
          hash' = (if length hash > orderBytes then take orderBytes hash else hash);
          ret = SetBytes hash';
          excess = int (length hash') * 8 - int orderBits
      in if excess > 0 then Rsh ret (nat excess) else ret)"

text \<open>
  The closure of \<open>SignECDSA\<close>, with \<open>c := priv.PublicKey.Curve\<close> and \<open>N := c.Params().N\<close>:
  \<^verbatim>\<open>
  func(k *big.Int) bool {
      inv := new(big.Int).ModInverse(k, N)
      r, _ = priv.Curve.ScalarBaseMult(k.Bytes())
      r.Mod(r, N)
      if r.Sign() == 0 {
          return false
      }
      e := hashToInt(hash, c)
      s = new(big.Int).Mul(priv.D, r)
      s.Add(s, e)
      s.Mul(s, inv)
      s.Mod(s, N)
      return s.Sign() != 0
  }
  \<close>
\<close>

definition ecdsaTest ::
  "ecdsa_PrivateKey \<Rightarrow> bytes \<Rightarrow> int \<Rightarrow> int option \<times> int option \<Rightarrow>
     panic + bool \<times> (int option \<times> int option)" where
  "ecdsaTest priv hash k = (\<lambda>(r, s).
     let c = PublicKey_Curve priv;
         inv = ModInverse k (N c);
         r1 = fst (ScalarBaseMult c (Bytes k))
     in case Mod r1 (N c) of
          Inl p \<Rightarrow> Inl p
        | Inr r2 \<Rightarrow>
            if r2 = 0 then Inr (False, (Some r2, s))
            else
              (let e = hashToInt hash c;
                   s1 = D priv * r2;
                   s2 = s1 + e
               in case inv of
                    None \<Rightarrow> Inl NilDeref
                  | Some i \<Rightarrow>
                     (case Mod (s2 * i) (N c) of
                        Inl p \<Rightarrow> Inl p
                      | Inr s4 \<Rightarrow> Inr (s4 \<noteq> 0, (Some r2, Some s4)))))"

text \<open>
  \<^verbatim>\<open>
  func SignECDSA(priv *ecdsa.PrivateKey, hash []byte, alg func() hash.Hash) (r, s *big.Int, err error) {
      c := priv.PublicKey.Curve
      N := c.Params().N
      generateSecret(N, priv.D, alg, hash, func(k *big.Int) bool { ... })
      return
  }
  \<close>
\<close>

definition SignECDSA ::
  "ecdsa_PrivateKey \<Rightarrow> bytes \<Rightarrow> HashAlgorithm \<Rightarrow>
     (panic + int option \<times> int option \<times> sign_error option) option" where
  "SignECDSA priv hash alg =
     (let c = PublicKey_Curve priv in
      case generateSecret (N c) (D priv) alg hash (ecdsaTest priv hash) (None, None) of
        None \<Rightarrow> None
      | Some (Inl p) \<Rightarrow> Some (Inl p)
      | Some (Inr (secret, (r, s))) \<Rightarrow> Some (Inr (r, s, None)))"

section \<open>Bit strings, for the statement of the conversions\<close>

text \<open>
  The bits of a byte string, most significant first, and the unsigned integer a bit
  string stands for. The code does not use them: they state what \<open>bits2int\<close> keeps.
\<close>

definition byte_bits :: "byte \<Rightarrow> bool list" where
  "byte_bits x = rev (map (bit x) [0 ..< 8])"

definition bits_of :: "bytes \<Rightarrow> bool list" where
  "bits_of b = concat (map byte_bits b)"

definition bits_val :: "bool list \<Rightarrow> int" where
  "bits_val bs = foldl (\<lambda>a b. 2 * a + (if b then 1 else 0)) 0 bs"

section \<open>Notions for the statement of the generator's properties\<close>

text \<open>
  \<open>blocks alg k v n\<close> is \<open>V\<^sub>1 || ... || V\<^sub>n\<close> for \<open>V\<^sub>0 = v\<close> and
  \<open>V\<^sub>i = mac(k, V\<^sub>i\<^sub>-\<^sub>1)\<close>: what \<open>n\<close> rounds of Step H2 append to an empty \<open>t\<close>.
\<close>

definition blocks :: "HashAlgorithm \<Rightarrow> bytes \<Rightarrow> bytes \<Rightarrow> nat \<Rightarrow> bytes" where
  "blocks alg k v n = concat (map (\<lambda>i. (mac alg k ^^ i) v) [1 ..< Suc n])"

text \<open>The \<open>k\<close> and \<open>v\<close> with which the main loop goes on after a candidate is
  turned down: \<open>k = mac(k, v || 0x00)\<close>, then \<open>v = mac(k, v)\<close>.\<close>

definition reseed :: "HashAlgorithm \<Rightarrow> bytes \<Rightarrow> bytes \<Rightarrow> bytes \<times> bytes" where
  "reseed alg k v = (let k' = mac alg k (v @ [0]) in (k', mac alg k' v))"

text \<open>What a call of the predicate answers, without the state it leaves, and what a run
  of the generator ends with, without that state.\<close>

fun verdict :: "panic + bool \<times> 'c \<Rightarrow> panic + bool" where
  "verdict (Inl p) = Inl p"
| "verdict (Inr (ok, c)) = Inr ok"

fun candidate_of :: "panic + int \<times> 'c \<Rightarrow> panic + int" where
  "candidate_of (Inl p) = Inl p"
| "candidate_of (Inr (k, c)) = Inr k"

definition accepted :: "(panic + int \<times> 'c) option \<Rightarrow> (panic + int) option" where
  "accepted r = map_option candidate_of r"

text \<open>A predicate that appends each candidate it is called with to a list it
  captures, and then answers as \<open>test\<close> does.\<close>

definition logged ::
  "(int \<Rightarrow> 'c \<Rightarrow> panic + bool \<times> 'c) \<Rightarrow> int \<Rightarrow> int list \<times> 'c \<Rightarrow>
     panic + bool \<times> (int list \<times> 'c)" where
  "logged test k = (\<lambda>(log, c).
     case test k c of
       Inl p \<Rightarrow> Inl p
     | Inr (ok, c') \<Rightarrow> Inr (ok, (log @ [k], c')))"

section \<open>Small instances, for concrete runs\<close>

text \<open>
  A one-byte MAC (the sum of the bytes of key and message, plus \<open>0x55\<close>), a MAC that
  returns the empty string, a DSA key with an 8-bit \<open>Q\<close> (\<open>131\<close> divides \<open>263 - 1\<close> and
  \<open>4\<close> has order \<open>131\<close>), a DSA key whose \<open>Q\<close> has 9 bits, and a group given by
  \<open>k \<mapsto> 3k\<close> with order parameter \<open>131\<close>.
\<close>

definition toyAlg :: HashAlgorithm where
  "toyAlg = \<lparr>Size = 1, hmac = (\<lambda>k m. [foldl (+) 0x55 (k @ m)])\<rparr>"

definition emptyAlg :: HashAlgorithm where
  "emptyAlg = \<lparr>Size = 0, hmac = (\<lambda>k m. [])\<rparr>"

definition toyKey :: dsa_PrivateKey where
  "toyKey = \<lparr>P = 263, Q = 131, G = 4, X = 5\<rparr>"

definition oddKey :: dsa_PrivateKey where
  "oddKey = \<lparr>P = 1023, Q = 511, G = 4, X = 5\<rparr>"

definition toyCurve :: Curve where
  "toyCurve = \<lparr>N = 131, ScalarBaseMult = (\<lambda>b. (3 * SetBytes b, 1))\<rparr>"

definition toyEKey :: ecdsa_PrivateKey where
  "toyEKey = \<lparr>PublicKey_Curve = toyCurve, D = 5\<rparr>"

section \<open>Facts about the operations of math/big\<close>

declare nat_bytes.simps [simp del] nat_bitlen.simps [simp del]


lemma SetBytes_Nil: "SetBytes [] = 0"
  by (simp add: SetBytes_def)

lemma SetBytes_snoc: "SetBytes (xs @ [x]) = SetBytes xs * 256 + uint x"
  by (simp add: SetBytes_def)

lemma SetBytes_append: "SetBytes (xs @ ys) = SetBytes xs * 256 ^ length ys + SetBytes ys"
proof (induction ys rule: rev_induct)
  case Nil
  show ?case by (simp add: SetBytes_Nil)
next
  case (snoc y ys)
  have "SetBytes (xs @ ys @ [y]) = SetBytes ((xs @ ys) @ [y])" by simp
  also have "\<dots> = SetBytes (xs @ ys) * 256 + uint y" by (rule SetBytes_snoc)
  finally show ?case by (simp add: snoc.IH SetBytes_snoc algebra_simps)
qed

lemma SetBytes_nonneg: "0 \<le> SetBytes xs"
  by (induction xs rule: rev_induct) (simp_all add: SetBytes_Nil SetBytes_snoc)

lemma uint_byte_less: "uint (x :: byte) < 256"
  using uint_bounded [of x] by simp

lemma SetBytes_less: "SetBytes xs < 256 ^ length xs"
proof (induction xs rule: rev_induct)
  case Nil
  show ?case by (simp add: SetBytes_Nil)
next
  case (snoc x xs)
  have "SetBytes xs + 1 \<le> 256 ^ length xs" using snoc.IH by simp
  then have "(SetBytes xs + 1) * 256 \<le> 256 ^ length xs * 256" by (rule mult_right_mono) simp
  with uint_byte_less [of x] show ?case by (simp add: SetBytes_snoc algebra_simps)
qed

lemma SetBytes_replicate_zero: "SetBytes (replicate n 0 @ xs) = SetBytes xs"
  by (induction n) (simp_all add: SetBytes_def)

lemma SetBytes_take: "SetBytes (take n xs) = SetBytes xs div 256 ^ (length xs - n)"
proof -
  have "SetBytes xs = SetBytes (take n xs) * 256 ^ length (drop n xs) + SetBytes (drop n xs)"
    using SetBytes_append [of "take n xs" "drop n xs"] by simp
  moreover have "0 \<le> SetBytes (drop n xs)" "SetBytes (drop n xs) < 256 ^ length (drop n xs)"
    by (rule SetBytes_nonneg, rule SetBytes_less)
  ultimately show ?thesis by simp
qed

lemma SetBytes_drop: "SetBytes (drop n xs) = SetBytes xs mod 256 ^ (length xs - n)"
proof -
  have "SetBytes xs = SetBytes (take n xs) * 256 ^ length (drop n xs) + SetBytes (drop n xs)"
    using SetBytes_append [of "take n xs" "drop n xs"] by simp
  moreover have "0 \<le> SetBytes (drop n xs)" "SetBytes (drop n xs) < 256 ^ length (drop n xs)"
    by (rule SetBytes_nonneg, rule SetBytes_less)
  ultimately show ?thesis by simp
qed

lemma SetBytes_nat_bytes: "SetBytes (nat_bytes n) = int n"
proof (induction n rule: nat_bytes.induct)
  case (1 n)
  show ?case
  proof (cases "n = 0")
    case True
    then show ?thesis by (simp add: nat_bytes.simps SetBytes_Nil)
  next
    case False
    have u: "uint (of_nat (n mod 256) :: byte) = int (n mod 256)"
      by (simp add: uint_nat unat_of_nat)
    have "nat_bytes n = nat_bytes (n div 256) @ [of_nat (n mod 256)]"
      using False by (subst nat_bytes.simps) simp
    then have "SetBytes (nat_bytes n) = int (n div 256) * 256 + int (n mod 256)"
      using 1 False u by (simp add: SetBytes_snoc)
    then show ?thesis by (simp add: zdiv_int zmod_int)
  qed
qed

lemma length_nat_bytes_le: "n < 256 ^ m \<Longrightarrow> length (nat_bytes n) \<le> m"
proof (induction n arbitrary: m rule: nat_bytes.induct)
  case (1 n)
  show ?case
  proof (cases "n = 0")
    case True
    then show ?thesis by (simp add: nat_bytes.simps)
  next
    case False
    then obtain m' where m: "m = Suc m'" using "1.prems" by (cases m) auto
    have "n div 256 < 256 ^ m'" using "1.prems" m by (simp add: less_mult_imp_div_less)
    then have "length (nat_bytes (n div 256)) \<le> m'" using "1.IH" False by blast
    then show ?thesis using False m by (subst nat_bytes.simps) simp
  qed
qed

lemma length_nat_bytes_ge: "256 ^ m \<le> n \<Longrightarrow> m < length (nat_bytes n)"
proof (induction n arbitrary: m rule: nat_bytes.induct)
  case (1 n)
  have "(0::nat) < 256 ^ m" by simp
  then have n0: "n \<noteq> 0" using "1.prems" by linarith
  show ?case
  proof (cases m)
    case 0
    then show ?thesis using n0 by (subst nat_bytes.simps) simp
  next
    case (Suc m')
    have "256 ^ m' \<le> n div 256" using "1.prems" Suc by (simp add: less_eq_div_iff_mult_less_eq)
    then have "m' < length (nat_bytes (n div 256))" using "1.IH" n0 by blast
    then show ?thesis using n0 Suc by (subst nat_bytes.simps) simp
  qed
qed

lemma nat_bitlen_upper: "n < 2 ^ nat_bitlen n"
proof (induction n rule: nat_bitlen.induct)
  case (1 n)
  show ?case
  proof (cases "n = 0")
    case True
    then show ?thesis by simp
  next
    case False
    have "n div 2 < 2 ^ nat_bitlen (n div 2)" using 1 False by blast
    then have "n < 2 * 2 ^ nat_bitlen (n div 2)" by linarith
    then show ?thesis using False by (subst nat_bitlen.simps) simp
  qed
qed

lemma nat_bitlen_lower: "0 < n \<Longrightarrow> 2 ^ (nat_bitlen n - 1) \<le> n"
proof (induction n rule: nat_bitlen.induct)
  case (1 n)
  have n0: "n \<noteq> 0" using "1.prems" by simp
  have bl: "nat_bitlen n = Suc (nat_bitlen (n div 2))" using n0 by (subst nat_bitlen.simps) simp
  show ?case
  proof (cases "n div 2 = 0")
    case True
    then have "nat_bitlen (n div 2) = 0" by (simp add: nat_bitlen.simps)
    then show ?thesis using bl "1.prems" by simp
  next
    case False
    then have "2 ^ (nat_bitlen (n div 2) - 1) \<le> n div 2" using 1 n0 by simp
    moreover have "nat_bitlen (n div 2) \<noteq> 0" using False by (subst nat_bitlen.simps) simp
    then obtain j where j: "nat_bitlen (n div 2) = Suc j" by (cases "nat_bitlen (n div 2)") auto
    ultimately have "2 * 2 ^ j \<le> n" by simp
    then show ?thesis using bl j by simp
  qed
qed

section \<open>Facts about the conversions\<close>

lemma bits_val_snoc: "bits_val (bs @ [b]) = 2 * bits_val bs + (if b then 1 else 0)"
  by (simp add: bits_val_def)

lemma bits_val_horner: "bits_val bs = horner_sum of_bool 2 (rev bs)"
  by (induction bs rule: rev_induct) (simp_all add: bits_val_snoc, simp add: bits_val_def)

lemma bits_val_byte: "bits_val (byte_bits x) = uint x"
proof -
  have M: "map (bit x) [0 ..< 8] = map (bit (uint x)) [0 ..< 8]"
    by (simp add: bit_uint_iff)
  have "bits_val (byte_bits x) = horner_sum of_bool 2 (map (bit (uint x)) [0 ..< 8])"
    by (simp only: bits_val_horner byte_bits_def rev_rev_ident M)
  also have "\<dots> = take_bit 8 (uint x)"
    by (rule horner_sum_bit_eq_take_bit)
  also have "\<dots> = uint x"
    using take_bit_length_eq [of x] by (simp add: take_bit_eq_mod uint_byte_less)
  finally show ?thesis .
qed

lemma length_byte_bits: "length (byte_bits x) = 8"
  by (simp add: byte_bits_def)

lemma length_bits_of: "length (bits_of b) = 8 * length b"
  by (induction b) (simp_all add: bits_of_def length_byte_bits)

lemma bits_val_nonneg: "0 \<le> bits_val bs"
  by (induction bs rule: rev_induct) (simp_all add: bits_val_snoc, simp add: bits_val_def)

lemma bits_val_less: "bits_val bs < 2 ^ length bs"
  by (induction bs rule: rev_induct) (simp_all add: bits_val_snoc, simp add: bits_val_def)

lemma bits_val_append: "bits_val (xs @ ys) = bits_val xs * 2 ^ length ys + bits_val ys"
proof (induction ys rule: rev_induct)
  case Nil
  show ?case by (simp add: bits_val_def)
next
  case (snoc y ys)
  have "bits_val (xs @ ys @ [y]) = bits_val ((xs @ ys) @ [y])" by simp
  also have "\<dots> = 2 * bits_val (xs @ ys) + (if y then 1 else 0)" by (rule bits_val_snoc)
  finally show ?case by (simp add: snoc.IH bits_val_snoc algebra_simps)
qed

lemma bits_val_take: "bits_val (take n bs) = bits_val bs div 2 ^ (length bs - n)"
proof -
  have "bits_val bs = bits_val (take n bs) * 2 ^ length (drop n bs) + bits_val (drop n bs)"
    using bits_val_append [of "take n bs" "drop n bs"] by simp
  moreover have "0 \<le> bits_val (drop n bs)" "bits_val (drop n bs) < 2 ^ length (drop n bs)"
    by (rule bits_val_nonneg, rule bits_val_less)
  ultimately show ?thesis by simp
qed

lemma bits_val_bits_of: "bits_val (bits_of b) = SetBytes b"
proof (induction b rule: rev_induct)
  case Nil
  show ?case by (simp add: bits_of_def bits_val_def SetBytes_Nil)
next
  case (snoc x b)
  have "bits_of (b @ [x]) = bits_of b @ byte_bits x" by (simp add: bits_of_def)
  then show ?case
    by (simp add: bits_val_append length_byte_bits bits_val_byte snoc.IH SetBytes_snoc)
qed

lemma bits2int_shift:
  "bits2int inp qlen = SetBytes inp div 2 ^ nat (int (length inp) * 8 - qlen)"
  by (simp add: bits2int_def Let_def Rsh_def drop_bit_eq_div)

lemma SetBytes_less_2p: "SetBytes inp < 2 ^ (8 * length inp)"
proof -
  have "(256::int) ^ length inp = 2 ^ (8 * length inp)" by (simp add: power_mult)
  then show ?thesis using SetBytes_less [of inp] by simp
qed

lemma bits2int_keeps_msb: "bits2int inp qlen = bits_val (take (nat qlen) (bits_of inp))"
proof (cases "0 \<le> qlen")
  case True
  then have "length (bits_of inp) - nat qlen = nat (int (length inp) * 8 - qlen)"
    by (simp add: length_bits_of nat_diff_distrib' nat_mult_distrib mult.commute)
  then show ?thesis
    by (simp add: bits2int_shift bits_val_take bits_val_bits_of)
next
  case False
  then have "8 * length inp \<le> nat (int (length inp) * 8 - qlen)" by linarith
  then have "(2::int) ^ (8 * length inp) \<le> 2 ^ nat (int (length inp) * 8 - qlen)"
    by (rule power_increasing) simp
  then have "SetBytes inp < 2 ^ nat (int (length inp) * 8 - qlen)"
    using SetBytes_less_2p [of inp] by linarith
  then have "bits2int inp qlen = 0"
    by (simp add: bits2int_shift SetBytes_nonneg)
  then show ?thesis using False by (simp add: bits_val_def)
qed

lemma bits2int_nonneg: "0 \<le> bits2int inp qlen"
  by (simp add: bits2int_shift SetBytes_nonneg pos_imp_zdiv_nonneg_iff)

lemma bits2int_less: "0 \<le> qlen \<Longrightarrow> bits2int inp qlen < 2 ^ nat qlen"
proof -
  assume q: "0 \<le> qlen"
  have "bits_val (take (nat qlen) (bits_of inp)) < 2 ^ length (take (nat qlen) (bits_of inp))"
    by (rule bits_val_less)
  also have "\<dots> \<le> 2 ^ nat qlen" by (rule power_increasing) simp_all
  finally show ?thesis by (simp add: bits2int_keeps_msb)
qed

lemma nat_bytes_hd: "nat_bytes n \<noteq> [] \<Longrightarrow> hd (nat_bytes n) \<noteq> 0"
proof (induction n rule: nat_bytes.induct)
  case (1 n)
  have n0: "n \<noteq> 0" using "1.prems" by (cases "n = 0") (simp_all add: nat_bytes.simps)
  have eq: "nat_bytes n = nat_bytes (n div 256) @ [of_nat (n mod 256)]"
    using n0 by (subst nat_bytes.simps) simp
  show ?case
  proof (cases "n div 256 = 0")
    case True
    then have "n < 256" "nat_bytes (n div 256) = []"
      by (simp_all add: nat_bytes.simps div_eq_0_iff)
    moreover have "unat (of_nat n :: byte) = n"
      using \<open>n < 256\<close> by (simp add: unat_of_nat)
    then have "(of_nat n :: byte) \<noteq> 0"
      using n0 by auto
    ultimately show ?thesis using eq by simp
  next
    case False
    then have ne: "nat_bytes (n div 256) \<noteq> []" by (subst nat_bytes.simps) simp
    then have "hd (nat_bytes (n div 256)) \<noteq> 0" using "1.IH" n0 by blast
    then show ?thesis using eq ne by simp
  qed
qed

lemma SetBytes_Bytes: "SetBytes (Bytes v) = \<bar>v\<bar>"
  by (simp add: Bytes_def SetBytes_nat_bytes)

lemma int2octets_pad:
  assumes "0 \<le> rolen" "length (Bytes v) \<le> nat rolen"
  shows "int2octets v rolen = Inr (replicate (nat rolen - length (Bytes v)) 0 @ Bytes v)"
proof (cases "length (Bytes v) = nat rolen")
  case True
  then have "int (length (Bytes v)) = rolen" using assms by linarith
  then show ?thesis using True by (simp add: int2octets_def)
next
  case False
  then have lt: "int (length (Bytes v)) < rolen" using assms by linarith
  have off: "nat (rolen - int (length (Bytes v))) = nat rolen - length (Bytes v)"
    by linarith
  have "nat rolen - (nat rolen - length (Bytes v)) = length (Bytes v)"
    using assms by linarith
  then have "copy (drop (nat rolen - length (Bytes v)) (replicate (nat rolen) 0)) (Bytes v) = Bytes v"
    by (simp add: copy_def)
  then show ?thesis
    using lt assms off by (simp add: int2octets_def make_bytes_def Let_def)
qed

lemma int2octets_drop:
  assumes "0 \<le> rolen" "nat rolen < length (Bytes v)"
  shows "int2octets v rolen = Inr (drop (length (Bytes v) - nat rolen) (Bytes v))"
proof -
  have gt: "rolen < int (length (Bytes v))" using assms by linarith
  have off: "nat (int (length (Bytes v)) - rolen) = length (Bytes v) - nat rolen"
    using assms by linarith
  have "length (drop (length (Bytes v) - nat rolen) (Bytes v)) = nat rolen"
    using assms by simp
  then have "copy (replicate (nat rolen) 0) (drop (length (Bytes v) - nat rolen) (Bytes v))
             = drop (length (Bytes v) - nat rolen) (Bytes v)"
    by (simp add: copy_def)
  then show ?thesis
    using gt assms off by (simp add: int2octets_def make_bytes_def Let_def)
qed

lemma BitLen_upper: "\<bar>q\<bar> < 2 ^ BitLen q"
proof -
  have "int (nat \<bar>q\<bar>) < int (2 ^ nat_bitlen (nat \<bar>q\<bar>))"
    using nat_bitlen_upper [of "nat \<bar>q\<bar>"] by (simp only: of_nat_less_iff)
  then show ?thesis by (simp add: BitLen_def)
qed

lemma BitLen_lower: "q \<noteq> 0 \<Longrightarrow> 2 ^ (BitLen q - 1) \<le> \<bar>q\<bar>"
proof -
  assume "q \<noteq> 0"
  then have "0 < nat \<bar>q\<bar>" by simp
  then have "int (2 ^ (nat_bitlen (nat \<bar>q\<bar>) - 1)) \<le> int (nat \<bar>q\<bar>)"
    using nat_bitlen_lower [of "nat \<bar>q\<bar>"] by (simp only: of_nat_le_iff)
  then show ?thesis by (simp add: BitLen_def)
qed

lemma BitLen_pos: "q \<noteq> 0 \<Longrightarrow> 0 < BitLen q"
  by (simp add: BitLen_def nat_bitlen.simps)

lemma length_Bytes_le: "0 \<le> v \<Longrightarrow> v < 256 ^ m \<Longrightarrow> length (Bytes v) \<le> m"
proof -
  assume "0 \<le> v" "v < 256 ^ m"
  then have "int (nat \<bar>v\<bar>) < int (256 ^ m)" by simp
  then have "nat \<bar>v\<bar> < 256 ^ m" by (simp only: of_nat_less_iff)
  then show ?thesis unfolding Bytes_def by (rule length_nat_bytes_le)
qed

lemma Bytes_bound: "\<bar>v\<bar> < 256 ^ length (Bytes v)"
  using SetBytes_less [of "Bytes v"] by (simp add: SetBytes_Bytes)

lemma int2octets_value:
  assumes "0 \<le> rolen"
  shows "\<exists>out. int2octets v rolen = Inr out \<and> length out = nat rolen \<and>
           SetBytes out = \<bar>v\<bar> mod 256 ^ nat rolen"
proof (cases "length (Bytes v) \<le> nat rolen")
  case True
  have "(256::int) ^ length (Bytes v) \<le> 256 ^ nat rolen"
    using True by (intro power_increasing) simp_all
  then have "\<bar>v\<bar> < 256 ^ nat rolen" using Bytes_bound [of v] by linarith
  then have "\<bar>v\<bar> mod 256 ^ nat rolen = \<bar>v\<bar>" by simp
  then show ?thesis
    using True int2octets_pad [OF assms True]
    by (simp add: SetBytes_replicate_zero SetBytes_Bytes)
next
  case False
  then have lt: "nat rolen < length (Bytes v)" by simp
  have "length (Bytes v) - (length (Bytes v) - nat rolen) = nat rolen" using lt by simp
  then have "SetBytes (drop (length (Bytes v) - nat rolen) (Bytes v)) = \<bar>v\<bar> mod 256 ^ nat rolen"
    by (simp add: SetBytes_drop SetBytes_Bytes)
  then show ?thesis
    using lt int2octets_drop [OF assms lt] by simp
qed

lemma hashToInt_bits2int: "hashToInt hash c = bits2int hash (int (BitLen (N c)))"
proof -
  define ob where "ob = BitLen (N c)"
  define oby where "oby = (ob + 7) div 8"
  show ?thesis
  proof (cases "length hash > oby")
    case False
    then show ?thesis
      by (simp add: hashToInt_def bits2int_def Let_def ob_def oby_def)
  next
    case True
    have le: "ob \<le> 8 * oby" unfolding oby_def by simp
    have len: "length (take oby hash) = oby" using True by simp
    have ex: "nat (int oby * 8 - int ob) = 8 * oby - ob" by linarith
    have "hashToInt hash c = SetBytes (take oby hash) div 2 ^ (8 * oby - ob)"
      using True len ex
      by (simp add: hashToInt_def Let_def Rsh_def drop_bit_eq_div ob_def [symmetric] oby_def [symmetric])
    also have "\<dots> = SetBytes hash div 256 ^ (length hash - oby) div 2 ^ (8 * oby - ob)"
      by (simp add: SetBytes_take)
    also have "\<dots> = SetBytes hash div (2 ^ (8 * (length hash - oby)) * 2 ^ (8 * oby - ob))"
    proof -
      have "(256::int) ^ (length hash - oby) = 2 ^ (8 * (length hash - oby))"
        by (simp add: power_mult)
      then show ?thesis by (simp add: zdiv_zmult2_eq)
    qed
    also have "\<dots> = SetBytes hash div 2 ^ (8 * length hash - ob)"
    proof -
      have "8 * (length hash - oby) + (8 * oby - ob) = 8 * length hash - ob"
        using True le by linarith
      then show ?thesis by (simp add: power_add [symmetric])
    qed
    also have "\<dots> = bits2int hash (int ob)"
    proof -
      have "nat (int (length hash) * 8 - int ob) = 8 * length hash - ob" by linarith
      then show ?thesis by (simp add: bits2int_shift)
    qed
    finally show ?thesis by (simp add: ob_def)
  qed
qed

section \<open>Facts about the generator and the signers\<close>

lemma blocks_0: "blocks alg k v 0 = []"
  by (simp add: blocks_def)

lemma blocks_Suc: "blocks alg k v (Suc n) = blocks alg k v n @ (mac alg k ^^ Suc n) v"
  by (simp add: blocks_def)

lemma blocks_Suc_front: "blocks alg k v (Suc n) = mac alg k v @ blocks alg k (mac alg k v) n"
proof (induction n)
  case 0
  show ?case by (simp add: blocks_def)
next
  case (Suc n)
  have "blocks alg k v (Suc (Suc n)) = blocks alg k v (Suc n) @ (mac alg k ^^ Suc (Suc n)) v"
    by (rule blocks_Suc)
  also have "\<dots> = mac alg k v @ blocks alg k (mac alg k v) n @ (mac alg k ^^ Suc (Suc n)) v"
    by (simp add: Suc.IH)
  also have "(mac alg k ^^ Suc (Suc n)) v = (mac alg k ^^ Suc n) (mac alg k v)"
    by (simp only: funpow_Suc_right o_apply)
  finally show ?case by (simp only: blocks_Suc [of alg k "mac alg k v" n])
qed

lemma stepH2_sound:
  assumes "stepH2 alg k qlen t v = Some y"
  shows "\<exists>n. fst y = t @ blocks alg k v n \<and> snd y = (mac alg k ^^ n) v \<and>
         qlen div 8 \<le> length (fst y) \<and>
         (\<forall>m<n. length (t @ blocks alg k v m) < qlen div 8)"
proof -
  define Pr where "Pr = (\<lambda>alg k qlen t v (y :: bytes \<times> bytes).
     \<exists>n. fst y = t @ blocks alg k v n \<and> snd y = (mac alg k ^^ n) v \<and>
         qlen div 8 \<le> length (fst y) \<and>
         (\<forall>m<n. length (t @ blocks alg k v m) < qlen div 8))"
  have "Pr alg k qlen t v y"
  proof (rule stepH2.raw_induct [where P = Pr, OF _ assms])
    fix f alg k qlen t v and y :: "bytes \<times> bytes"
    assume IH: "\<And>alg k qlen t v y. f alg k qlen t v = Some y \<Longrightarrow> Pr alg k qlen t v y"
      and eq: "(if length t < qlen div 8
                then let v' = mac alg k v in f alg k qlen (t @ v') v'
                else Some (t, v)) = Some y"
    show "Pr alg k qlen t v y"
    proof (cases "length t < qlen div 8")
      case False
      then have "y = (t, v)" using eq by simp
      then have "fst y = t @ blocks alg k v 0 \<and> snd y = (mac alg k ^^ 0) v \<and>
           qlen div 8 \<le> length (fst y) \<and> (\<forall>m<0. length (t @ blocks alg k v m) < qlen div 8)"
        using False by (simp add: blocks_0)
      then show ?thesis unfolding Pr_def by blast
    next
      case True
      then have "f alg k qlen (t @ mac alg k v) (mac alg k v) = Some y"
        using eq by (simp add: Let_def)
      from IH [OF this] obtain n where n:
        "fst y = (t @ mac alg k v) @ blocks alg k (mac alg k v) n"
        "snd y = (mac alg k ^^ n) (mac alg k v)"
        "qlen div 8 \<le> length (fst y)"
        "\<forall>m<n. length ((t @ mac alg k v) @ blocks alg k (mac alg k v) m) < qlen div 8"
        unfolding Pr_def by blast
      have a: "fst y = t @ blocks alg k v (Suc n)"
        using n(1) by (simp add: blocks_Suc_front)
      have b: "snd y = (mac alg k ^^ Suc n) v"
        using n(2) by (simp only: funpow_Suc_right o_apply)
      have c: "\<forall>m<Suc n. length (t @ blocks alg k v m) < qlen div 8"
      proof (intro allI impI)
        fix m assume m: "m < Suc n"
        show "length (t @ blocks alg k v m) < qlen div 8"
        proof (cases m)
          case 0
          then show ?thesis using True by (simp add: blocks_0)
        next
          case (Suc m')
          then have "m' < n" using m by simp
          then show ?thesis using n(4) Suc by (simp add: blocks_Suc_front)
        qed
      qed
      from a b c n(3) show ?thesis unfolding Pr_def by blast
    qed
  qed
  then show ?thesis unfolding Pr_def .
qed

lemma stepH2_complete:
  "qlen div 8 \<le> length (t @ blocks alg k v n) \<Longrightarrow>
   (\<forall>m<n. length (t @ blocks alg k v m) < qlen div 8) \<Longrightarrow>
   stepH2 alg k qlen t v = Some (t @ blocks alg k v n, (mac alg k ^^ n) v)"
proof (induction n arbitrary: t v)
  case 0
  then show ?case by (subst stepH2.simps) (simp add: blocks_0)
next
  case (Suc n)
  have lt: "length t < qlen div 8" using Suc.prems(2) by (auto simp: blocks_0 dest: spec [of _ 0])
  have "qlen div 8 \<le> length ((t @ mac alg k v) @ blocks alg k (mac alg k v) n)"
    using Suc.prems(1) by (simp add: blocks_Suc_front)
  moreover have "\<forall>m<n. length ((t @ mac alg k v) @ blocks alg k (mac alg k v) m) < qlen div 8"
  proof (intro allI impI)
    fix m assume "m < n"
    then have "length (t @ blocks alg k v (Suc m)) < qlen div 8" using Suc.prems(2) by simp
    then show "length ((t @ mac alg k v) @ blocks alg k (mac alg k v) m) < qlen div 8"
      by (simp add: blocks_Suc_front)
  qed
  ultimately have "stepH2 alg k qlen (t @ mac alg k v) (mac alg k v)
      = Some ((t @ mac alg k v) @ blocks alg k (mac alg k v) n, (mac alg k ^^ n) (mac alg k v))"
    by (rule Suc.IH)
  moreover have "(mac alg k ^^ n) (mac alg k v) = (mac alg k ^^ Suc n) v"
    by (simp only: funpow_Suc_right o_apply)
  ultimately show ?case using lt
    by (subst stepH2.simps) (simp add: Let_def blocks_Suc_front)
qed

lemma generateLoop_unfold:
  "generateLoop q qlen alg test k v c =
     (case stepH alg k qlen v of
        None \<Rightarrow> None
      | Some (secret, v1) \<Rightarrow>
          if 1 \<le> secret \<and> secret < q then
            (case test secret c of
               Inl p \<Rightarrow> Some (Inl p)
             | Inr (ok, c') \<Rightarrow>
                 if ok then Some (Inr (secret, c'))
                 else generateLoop q qlen alg test (fst (reseed alg k v1)) (snd (reseed alg k v1)) c')
          else generateLoop q qlen alg test (fst (reseed alg k v1)) (snd (reseed alg k v1)) c)"
  by (subst generateLoop.simps)
     (auto simp: reseed_def Let_def split: option.splits sum.splits prod.splits)

lemma generateLoop_induct [consumes 1, case_names accept panic reject skip]:
  assumes run: "generateLoop q qlen alg test k v c = Some y"
    and accept: "\<And>k v c secret v1 c'.
        \<lbrakk>stepH alg k qlen v = Some (secret, v1); 1 \<le> secret; secret < q;
         test secret c = Inr (True, c')\<rbrakk> \<Longrightarrow> Pr k v c (Inr (secret, c'))"
    and panic: "\<And>k v c secret v1 p.
        \<lbrakk>stepH alg k qlen v = Some (secret, v1); 1 \<le> secret; secret < q;
         test secret c = Inl p\<rbrakk> \<Longrightarrow> Pr k v c (Inl p)"
    and reject: "\<And>k v c secret v1 c' y.
        \<lbrakk>stepH alg k qlen v = Some (secret, v1); 1 \<le> secret; secret < q;
         test secret c = Inr (False, c');
         Pr (fst (reseed alg k v1)) (snd (reseed alg k v1)) c' y\<rbrakk> \<Longrightarrow> Pr k v c y"
    and skip: "\<And>k v c secret v1 y.
        \<lbrakk>stepH alg k qlen v = Some (secret, v1); \<not> (1 \<le> secret \<and> secret < q);
         Pr (fst (reseed alg k v1)) (snd (reseed alg k v1)) c y\<rbrakk> \<Longrightarrow> Pr k v c y"
  shows "Pr k v c y"
proof -
  define R where "R = (\<lambda>(q'::int) (qlen'::nat) (alg'::HashAlgorithm)
      (test' :: int \<Rightarrow> 'a \<Rightarrow> panic + bool \<times> 'a) (k::bytes) (v::bytes) (c::'a)
      (y :: panic + int \<times> 'a).
      q' = q \<and> qlen' = qlen \<and> alg' = alg \<and> test' = test \<longrightarrow> Pr k v c y)"
  have "R q qlen alg test k v c y"
  proof (rule generateLoop.raw_induct [where P = R, OF _ run])
    fix f q' qlen' alg' and test' :: "int \<Rightarrow> 'a \<Rightarrow> panic + bool \<times> 'a" and k v c y
    assume IH: "\<And>q qlen alg test k v c y.
        f q qlen alg test k v c = Some y \<Longrightarrow> R q qlen alg test k v c y"
      and eq: "(case stepH alg' k qlen' v of
         None \<Rightarrow> None
       | Some (secret, v') \<Rightarrow>
          (case (if 1 \<le> secret \<and> secret < q' then test' secret c else Inr (False, c)) of
             Inl p \<Rightarrow> Some (Inl p)
           | Inr (ok, c') \<Rightarrow>
              (if ok then Some (Inr (secret, c'))
               else (let k' = mac alg' k (v' @ [0]); v'' = mac alg' k' v'
                     in f q' qlen' alg' test' k' v'' c')))) = Some y"
    show "R q' qlen' alg' test' k v c y"
      unfolding R_def
    proof (intro impI, elim conjE)
      assume same: "q' = q" "qlen' = qlen" "alg' = alg" "test' = test"
      obtain secret v1 where st: "stepH alg k qlen v = Some (secret, v1)"
        using eq same by (auto split: option.splits)
      have rec: "\<And>c'. f q qlen alg test (fst (reseed alg k v1)) (snd (reseed alg k v1)) c' = Some y
         \<Longrightarrow> Pr (fst (reseed alg k v1)) (snd (reseed alg k v1)) c' y"
        using IH unfolding R_def by blast
      show "Pr k v c y"
      proof (cases "1 \<le> secret \<and> secret < q")
        case False
        then have "f q qlen alg test (fst (reseed alg k v1)) (snd (reseed alg k v1)) c = Some y"
          using eq st same by (auto simp: reseed_def Let_def)
        then show ?thesis using skip [OF st False] rec by simp
      next
        case True
        then have r1: "1 \<le> secret" and r2: "secret < q" by simp_all
        show ?thesis
        proof (cases "test secret c")
          case (Inl p)
          then have "y = Inl p" using eq st same True by simp
          then show ?thesis using panic [OF st r1 r2 Inl] by simp
        next
          case (Inr okc)
          obtain ok c' where okc: "okc = (ok, c')" by (cases okc)
          show ?thesis
          proof (cases ok)
            case ok: True
            then have "y = Inr (secret, c')" using eq st same True Inr okc by simp
            moreover have "test secret c = Inr (True, c')" using Inr okc ok by simp
            ultimately show ?thesis using accept [OF st r1 r2] by simp
          next
            case False
            then have "f q qlen alg test (fst (reseed alg k v1)) (snd (reseed alg k v1)) c' = Some y"
              using eq st same True Inr okc by (simp add: reseed_def Let_def)
            moreover have "test secret c = Inr (False, c')" using Inr okc False by simp
            ultimately show ?thesis using reject [OF st r1 r2] rec by simp
          qed
        qed
      qed
    qed
  qed
  then show ?thesis unfolding R_def by simp
qed

lemma generateLoop_accept:
  assumes "generateLoop q qlen alg test k v c = Some (Inr (secret, c'))"
  shows "1 \<le> secret \<and> secret < q \<and> (\<exists>c0. test secret c0 = Inr (True, c'))"
proof -
  have "\<forall>s d. (Inr (secret, c') :: panic + int \<times> 'a) = Inr (s, d) \<longrightarrow>
      1 \<le> s \<and> s < q \<and> (\<exists>c0. test s c0 = Inr (True, d))"
    using assms
    by (induction rule: generateLoop_induct) auto
  then show ?thesis by blast
qed

lemma generateLoop_agree_Some:
  assumes "generateLoop q qlen alg test k v c = Some y"
    and ag: "\<forall>k c. 1 \<le> k \<and> k < q \<longrightarrow> test k c = test' k c"
  shows "generateLoop q qlen alg test' k v c = Some y"
  using assms(1)
proof (induction rule: generateLoop_induct)
  case (accept k v c secret v1 c')
  then show ?case using ag by (subst generateLoop_unfold) simp
next
  case (panic k v c secret v1 p)
  then show ?case using ag by (subst generateLoop_unfold) simp
next
  case (reject k v c secret v1 c' y)
  then show ?case using ag by (subst generateLoop_unfold) simp
next
  case (skip k v c secret v1 y)
  then show ?case by (subst generateLoop_unfold) auto
qed

lemma generateLoop_agree:
  assumes "\<forall>k c. 1 \<le> k \<and> k < q \<longrightarrow> test k c = test' k c"
  shows "generateLoop q qlen alg test k v c = generateLoop q qlen alg test' k v c"
proof (cases "generateLoop q qlen alg test k v c")
  case (Some y)
  then show ?thesis using generateLoop_agree_Some [OF Some assms] by simp
next
  case None
  show ?thesis
  proof (cases "generateLoop q qlen alg test' k v c")
    case None': None
    then show ?thesis using None by simp
  next
    case (Some y)
    have "\<forall>k c. 1 \<le> k \<and> k < q \<longrightarrow> test' k c = test k c" using assms by simp
    from generateLoop_agree_Some [OF Some this] show ?thesis using None by simp
  qed
qed

lemma verdict_cases:
  "verdict r = verdict r' \<Longrightarrow>
     (\<forall>p. r = Inl p \<longrightarrow> r' = Inl p) \<and> (\<forall>ok d. r = Inr (ok, d) \<longrightarrow> (\<exists>d'. r' = Inr (ok, d')))"
  by (cases r; cases r') auto

lemma generateLoop_verdict_Some:
  fixes test :: "int \<Rightarrow> 'a \<Rightarrow> panic + bool \<times> 'a" and test' :: "int \<Rightarrow> 'b \<Rightarrow> panic + bool \<times> 'b"
  assumes "generateLoop q qlen alg test k v c = Some y"
    and vd: "\<forall>k c c'. verdict (test k c) = verdict (test' k c')"
  shows "\<forall>c'. \<exists>y'. generateLoop q qlen alg test' k v c' = Some y' \<and>
           candidate_of y' = candidate_of y"
  using assms(1)
proof (induction rule: generateLoop_induct)
  case (accept k v c secret v1 d)
  show ?case
  proof
    fix c'
    obtain d' where "test' secret c' = Inr (True, d')"
      using verdict_cases [OF vd [rule_format, of secret c c']] accept by blast
    then show "\<exists>y'. generateLoop q qlen alg test' k v c' = Some y' \<and>
           candidate_of y' = candidate_of (Inr (secret, d))"
      using accept by (subst generateLoop_unfold) simp
  qed
next
  case (panic k v c secret v1 p)
  show ?case
  proof
    fix c'
    have "test' secret c' = Inl p"
      using verdict_cases [OF vd [rule_format, of secret c c']] panic by blast
    then show "\<exists>y'. generateLoop q qlen alg test' k v c' = Some y' \<and>
           candidate_of y' = candidate_of (Inl p)"
      using panic by (subst generateLoop_unfold) simp
  qed
next
  case (reject k v c secret v1 d y)
  show ?case
  proof
    fix c'
    obtain d' where "test' secret c' = Inr (False, d')"
      using verdict_cases [OF vd [rule_format, of secret c c']] reject by blast
    then show "\<exists>y'. generateLoop q qlen alg test' k v c' = Some y' \<and>
           candidate_of y' = candidate_of y"
      using reject by (subst generateLoop_unfold) simp
  qed
next
  case (skip k v c secret v1 y)
  show ?case
  proof
    fix c'
    show "\<exists>y'. generateLoop q qlen alg test' k v c' = Some y' \<and>
           candidate_of y' = candidate_of y"
      using skip by (subst generateLoop_unfold) auto
  qed
qed

lemma generateLoop_verdict:
  fixes test :: "int \<Rightarrow> 'a \<Rightarrow> panic + bool \<times> 'a" and test' :: "int \<Rightarrow> 'b \<Rightarrow> panic + bool \<times> 'b"
  assumes "\<forall>k c c'. verdict (test k c) = verdict (test' k c')"
  shows "accepted (generateLoop q qlen alg test k v c) = accepted (generateLoop q qlen alg test' k v c')"
proof (cases "generateLoop q qlen alg test k v c")
  case (Some y)
  from generateLoop_verdict_Some [OF Some assms] obtain y'
    where "generateLoop q qlen alg test' k v c' = Some y'" "candidate_of y' = candidate_of y"
    by blast
  then show ?thesis using Some by (simp add: accepted_def)
next
  case None
  show ?thesis
  proof (cases "generateLoop q qlen alg test' k v c'")
    case None': None
    then show ?thesis using None by (simp add: accepted_def)
  next
    case (Some y)
    have "\<forall>k c c'. verdict (test' k c) = verdict (test k c')"
      by (intro allI) (rule sym, rule assms [rule_format])
    from generateLoop_verdict_Some [OF Some this, rule_format, of c] show ?thesis
      using None by simp
  qed
qed

lemma generateLoop_forgets_Some:
  assumes "generateLoop q qlen alg test k v c = Some y"
    and f1: "\<And>k c c' p. test k c = Inl p \<Longrightarrow> test k c' = Inl p"
    and f2: "\<And>k c c' d. test k c = Inr (True, d) \<Longrightarrow> test k c' = Inr (True, d)"
    and f3: "\<And>k c c' d. test k c = Inr (False, d) \<Longrightarrow> \<exists>d'. test k c' = Inr (False, d')"
  shows "\<forall>c'. generateLoop q qlen alg test k v c' = Some y"
  using assms(1)
proof (induction rule: generateLoop_induct)
  case (accept k v c secret v1 d)
  show ?case
  proof
    fix c'
    have "test secret c' = Inr (True, d)" using accept(4) by (rule f2)
    then show "generateLoop q qlen alg test k v c' = Some (Inr (secret, d))"
      using accept by (subst generateLoop_unfold) simp
  qed
next
  case (panic k v c secret v1 p)
  show ?case
  proof
    fix c'
    have "test secret c' = Inl p" using panic(4) by (rule f1)
    then show "generateLoop q qlen alg test k v c' = Some (Inl p)"
      using panic by (subst generateLoop_unfold) simp
  qed
next
  case (reject k v c secret v1 d y)
  show ?case
  proof
    fix c'
    obtain d' where "test secret c' = Inr (False, d')"
      using f3 [OF reject(4)] by blast
    then show "generateLoop q qlen alg test k v c' = Some y"
      using reject by (subst generateLoop_unfold) simp
  qed
next
  case (skip k v c secret v1 y)
  show ?case
  proof
    fix c'
    show "generateLoop q qlen alg test k v c' = Some y"
      using skip by (subst generateLoop_unfold) auto
  qed
qed

lemma generateLoop_forgets:
  assumes f1: "\<And>k c c' p. test k c = Inl p \<Longrightarrow> test k c' = Inl p"
    and f2: "\<And>k c c' d. test k c = Inr (True, d) \<Longrightarrow> test k c' = Inr (True, d)"
    and f3: "\<And>k c c' d. test k c = Inr (False, d) \<Longrightarrow> \<exists>d'. test k c' = Inr (False, d')"
  shows "generateLoop q qlen alg test k v c = generateLoop q qlen alg test k v c'"
proof (cases "generateLoop q qlen alg test k v c")
  case (Some y)
  from generateLoop_forgets_Some [OF Some f1 f2 f3] show ?thesis using Some by simp
next
  case None
  show ?thesis
  proof (cases "generateLoop q qlen alg test k v c'")
    case None': None
    then show ?thesis using None by simp
  next
    case (Some y)
    from generateLoop_forgets_Some [OF Some f1 f2 f3] show ?thesis using None by simp
  qed
qed

lemma logged_Inr: "logged test k c = Inr (ok, c') \<Longrightarrow> fst c' = fst c @ [k]"
  by (cases c) (auto simp: logged_def split: sum.splits)

lemma generateLoop_logged:
  assumes "generateLoop q qlen alg (logged test) k v c = Some y"
  shows "\<forall>secret log d. y = Inr (secret, (log, d)) \<longrightarrow> (\<forall>x\<in>set (fst c). 1 \<le> x \<and> x < q) \<longrightarrow>
           (\<forall>x\<in>set log. 1 \<le> x \<and> x < q)"
  using assms
proof (induction rule: generateLoop_induct)
  case (accept k v c secret v1 c')
  have "fst c' = fst c @ [secret]" using accept(4) by (rule logged_Inr)
  then show ?case using accept(2,3) by auto
next
  case (panic k v c secret v1 p)
  then show ?case by simp
next
  case (reject k v c secret v1 c' y)
  have "fst c' = fst c @ [secret]" using reject(4) by (rule logged_Inr)
  then have "(\<forall>x\<in>set (fst c). 1 \<le> x \<and> x < q) \<Longrightarrow> (\<forall>x\<in>set (fst c'). 1 \<le> x \<and> x < q)"
    using reject(2,3) by simp
  then show ?case using reject(5) by blast
next
  case (skip k v c secret v1 y)
  from skip(3) show ?case .
qed

lemma int2octets_total: "0 \<le> rolen \<Longrightarrow> \<exists>out. int2octets v rolen = Inr out \<and> length out = nat rolen"
  using int2octets_pad [of rolen v] int2octets_drop [of rolen v]
  by (cases "length (Bytes v) \<le> nat rolen") auto

lemma bits2octets_total:
  "0 \<le> rolen \<Longrightarrow> \<exists>out. bits2octets inp q qlen rolen = Inr out \<and> length out = nat rolen"
  by (simp add: bits2octets_def Let_def int2octets_total)

lemma stepH_None:
  assumes "\<forall>n. length (blocks alg k v n) < qlen div 8"
  shows "stepH alg k qlen v = None"
proof (cases "stepH2 alg k qlen [] v")
  case None
  then show ?thesis by (simp add: stepH_def)
next
  case (Some y)
  from stepH2_sound [OF Some] obtain n where "fst y = [] @ blocks alg k v n" "qlen div 8 \<le> length (fst y)"
    by blast
  then show ?thesis using assms [rule_format, of n] by simp
qed

lemma stepH_Least:
  assumes "\<exists>n. qlen div 8 \<le> length (blocks alg k v n)"
  shows "stepH alg k qlen v =
     Some (bits2int (blocks alg k v (LEAST n. qlen div 8 \<le> length (blocks alg k v n))) (int qlen),
           (mac alg k ^^ (LEAST n. qlen div 8 \<le> length (blocks alg k v n))) v)"
proof -
  define n where "n = (LEAST n. qlen div 8 \<le> length (blocks alg k v n))"
  have a: "qlen div 8 \<le> length (blocks alg k v n)"
    unfolding n_def using assms by (rule LeastI_ex)
  have b: "\<forall>m<n. length (blocks alg k v m) < qlen div 8"
    unfolding n_def using not_less_Least by (auto simp: not_le [symmetric])
  have "stepH2 alg k qlen [] v = Some ([] @ blocks alg k v n, (mac alg k ^^ n) v)"
    by (rule stepH2_complete) (use a b in simp_all)
  then show ?thesis by (simp add: stepH_def n_def)
qed

lemma Mod_Inr: "Mod x m = Inr y \<Longrightarrow> m \<noteq> 0 \<and> 0 \<le> y \<and> y < \<bar>m\<bar>"
  by (auto simp: Mod_def split: if_splits)

lemma dsaTest_accept:
  assumes "dsaTest priv hash k c = Inr (True, d)"
  shows "\<exists>r s. d = (Some r, Some s) \<and> 1 \<le> r \<and> r < \<bar>Q priv\<bar> \<and> 1 \<le> s \<and> s < \<bar>Q priv\<bar>"
proof -
  obtain r0 s0 where c: "c = (r0, s0)" by (cases c)
  from assms obtain r1 r2 s3 ki s5 where
    "Mod r1 (Q priv) = Inr r2" "r2 \<noteq> 0"
    "Mod (s3 * ki) (Q priv) = Inr s5" "s5 \<noteq> 0" "d = (Some r2, Some s5)"
    unfolding dsaTest_def c
    by (auto simp: Let_def split: option.splits sum.splits if_splits)
  then show ?thesis using Mod_Inr [of r1 "Q priv" r2] Mod_Inr [of "s3 * ki" "Q priv" s5]
    by auto
qed

lemma dsaTest_forgets:
  "dsaTest priv hash k c = Inl p \<Longrightarrow> dsaTest priv hash k c' = Inl p"
  "dsaTest priv hash k c = Inr (True, d) \<Longrightarrow> dsaTest priv hash k c' = Inr (True, d)"
  "dsaTest priv hash k c = Inr (False, d) \<Longrightarrow> \<exists>d'. dsaTest priv hash k c' = Inr (False, d')"
  by (cases c; cases c';
      auto simp: dsaTest_def Let_def split: option.splits sum.splits if_splits)+

lemma ecdsaTest_accept:
  assumes "ecdsaTest priv hash k c = Inr (True, d)"
  shows "\<exists>r s. d = (Some r, Some s) \<and> 1 \<le> r \<and> r < \<bar>N (PublicKey_Curve priv)\<bar> \<and>
           1 \<le> s \<and> s < \<bar>N (PublicKey_Curve priv)\<bar>"
proof -
  obtain r0 s0 where c: "c = (r0, s0)" by (cases c)
  from assms obtain r1 r2 s2 i s4 where
    "Mod r1 (N (PublicKey_Curve priv)) = Inr r2" "r2 \<noteq> 0"
    "Mod (s2 * i) (N (PublicKey_Curve priv)) = Inr s4" "s4 \<noteq> 0" "d = (Some r2, Some s4)"
    unfolding ecdsaTest_def c
    by (auto simp: Let_def split: option.splits sum.splits if_splits)
  then show ?thesis
    using Mod_Inr [of r1 "N (PublicKey_Curve priv)" r2]
      Mod_Inr [of "s2 * i" "N (PublicKey_Curve priv)" s4]
    by auto
qed

lemma ecdsaTest_forgets:
  "ecdsaTest priv hash k c = Inl p \<Longrightarrow> ecdsaTest priv hash k c' = Inl p"
  "ecdsaTest priv hash k c = Inr (True, d) \<Longrightarrow> ecdsaTest priv hash k c' = Inr (True, d)"
  "ecdsaTest priv hash k c = Inr (False, d) \<Longrightarrow> \<exists>d'. ecdsaTest priv hash k c' = Inr (False, d')"
  by (cases c; cases c';
      auto simp: ecdsaTest_def Let_def split: option.splits sum.splits if_splits)+

lemma stepsAtoG_total: "\<exists>k v. stepsAtoG q x alg hash = Inr (k, v)"
proof -
  define rolen where "rolen = int (drop_bit 3 (BitLen q + 7))"
  have r: "0 \<le> rolen" by (simp add: rolen_def)
  obtain b where b: "int2octets x rolen = Inr b"
    using int2octets_total [OF r] by blast
  obtain bh where bh: "bits2octets hash q (int (BitLen q)) rolen = Inr bh"
    using bits2octets_total [OF r] by blast
  show ?thesis
    using b bh by (simp add: stepsAtoG_def Let_def rolen_def [symmetric])
qed

lemma generateSecret_loop:
  "stepsAtoG q x alg hash = Inr (k, v) \<Longrightarrow>
     generateSecret q x alg hash test c = generateLoop q (BitLen q) alg test k v c"
  by (simp add: generateSecret_def)

lemma generateSecret_accept:
  assumes "generateSecret q x alg hash test c = Some (Inr (secret, c'))"
  shows "1 \<le> secret \<and> secret < q \<and> (\<exists>c0. test secret c0 = Inr (True, c'))"
proof -
  obtain k v where kv: "stepsAtoG q x alg hash = Inr (k, v)"
    using stepsAtoG_total by blast
  have "generateLoop q (BitLen q) alg test k v c = Some (Inr (secret, c'))"
    using assms by (simp only: generateSecret_loop [OF kv])
  then show ?thesis by (rule generateLoop_accept)
qed

lemma generateSecret_agree:
  assumes "\<forall>k c. 1 \<le> k \<and> k < q \<longrightarrow> test k c = test' k c"
  shows "generateSecret q x alg hash test c = generateSecret q x alg hash test' c"
proof -
  obtain k v where kv: "stepsAtoG q x alg hash = Inr (k, v)"
    using stepsAtoG_total by blast
  have "generateLoop q (BitLen q) alg test k v c = generateLoop q (BitLen q) alg test' k v c"
    using assms by (rule generateLoop_agree)
  then show ?thesis by (simp only: generateSecret_loop [OF kv])
qed

lemma generateSecret_logged:
  assumes "generateSecret q x alg hash (logged test) ([], c0) = Some (Inr (secret, (log, c')))"
  shows "\<forall>k\<in>set log. 1 \<le> k \<and> k < q"
proof -
  obtain k v where kv: "stepsAtoG q x alg hash = Inr (k, v)"
    using stepsAtoG_total by blast
  have "generateLoop q (BitLen q) alg (logged test) k v ([], c0) = Some (Inr (secret, (log, c')))"
    using assms by (simp only: generateSecret_loop [OF kv])
  from generateLoop_logged [OF this] show ?thesis by simp
qed

lemma generateSecret_verdict:
  fixes test :: "int \<Rightarrow> 'a \<Rightarrow> panic + bool \<times> 'a" and test' :: "int \<Rightarrow> 'b \<Rightarrow> panic + bool \<times> 'b"
  assumes "\<forall>k c c'. verdict (test k c) = verdict (test' k c')"
  shows "accepted (generateSecret q x alg hash test c) = accepted (generateSecret q x alg hash test' c')"
proof -
  obtain k v where kv: "stepsAtoG q x alg hash = Inr (k, v)"
    using stepsAtoG_total by blast
  have "accepted (generateLoop q (BitLen q) alg test k v c)
      = accepted (generateLoop q (BitLen q) alg test' k v c')"
    using assms by (rule generateLoop_verdict)
  then show ?thesis by (simp only: generateSecret_loop [OF kv])
qed

lemma generateSecret_forgets:
  assumes f1: "\<And>k c c' p. test k c = Inl p \<Longrightarrow> test k c' = Inl p"
    and f2: "\<And>k c c' d. test k c = Inr (True, d) \<Longrightarrow> test k c' = Inr (True, d)"
    and f3: "\<And>k c c' d. test k c = Inr (False, d) \<Longrightarrow> \<exists>d'. test k c' = Inr (False, d')"
  shows "generateSecret q x alg hash test c = generateSecret q x alg hash test c'"
proof -
  obtain k v where kv: "stepsAtoG q x alg hash = Inr (k, v)"
    using stepsAtoG_total by blast
  have "generateLoop q (BitLen q) alg test k v c = generateLoop q (BitLen q) alg test k v c'"
    using f1 f2 f3 by (rule generateLoop_forgets)
  then show ?thesis by (simp only: generateSecret_loop [OF kv])
qed

lemma generateSecret_dsa_forgets:
  "generateSecret q x alg hash (dsaTest priv hash') c =
   generateSecret q x alg hash (dsaTest priv hash') c'"
  by (rule generateSecret_forgets) (erule dsaTest_forgets)+

lemma generateSecret_ecdsa_forgets:
  "generateSecret q x alg hash (ecdsaTest priv hash') c =
   generateSecret q x alg hash (ecdsaTest priv hash') c'"
  by (rule generateSecret_forgets) (erule ecdsaTest_forgets)+

lemma and7: "int n AND 7 = int (n mod 8)"
proof -
  have "int n AND 7 = int n AND mask 3" by (simp add: mask_eq_exp_minus_1)
  also have "\<dots> = take_bit 3 (int n)" by (simp add: take_bit_eq_mask)
  also have "\<dots> = int n mod 8" by (simp add: take_bit_eq_mod)
  finally show ?thesis by (simp add: zmod_int)
qed

lemma emptyAlg_diverges: "generateSecret 511 x emptyAlg hash test c = None"
proof -
  have bl: "BitLen 511 = 9" by (simp add: BitLen_def nat_bitlen.simps)
  obtain k v where kv: "stepsAtoG 511 x emptyAlg hash = Inr (k, v)"
    using stepsAtoG_total by blast
  have "blocks emptyAlg k v n = []" for k v n
    by (induction n) (simp_all add: blocks_0 blocks_Suc, simp add: mac_def emptyAlg_def)
  then have "stepH emptyAlg k 9 v = None" for k v
    by (intro stepH_None) simp
  then have "generateLoop 511 9 emptyAlg test k v c = None"
    by (subst generateLoop_unfold) simp
  then show ?thesis by (simp only: generateSecret_loop [OF kv] bl)
qed

section \<open>The conversions: what the specification says of them\<close>

text \<open>
  C4. \<open>bits2int(input, qlen)\<close> reads \<open>input\<close> as a big-endian unsigned integer and keeps
  its \<open>qlen\<close> most significant bits: when \<open>8 * len(input)\<close> exceeds \<open>qlen\<close> the integer
  is shifted right by exactly the excess, with no modular reduction, and an input of at
  most \<open>qlen\<close> bits is returned unchanged.
\<close>

theorem bits2int_keeps_qlen_msb: 
  "bits2int inp qlen = bits_val (take (nat qlen) (bits_of inp)) \<and>
   (qlen < 8 * int (length inp) \<longrightarrow>
      bits2int inp qlen = SetBytes inp div 2 ^ nat (8 * int (length inp) - qlen)) \<and>
   (8 * int (length inp) \<le> qlen \<longrightarrow> bits2int inp qlen = SetBytes inp)"
proof -
  have "8 * int (length inp) \<le> qlen \<Longrightarrow> bits2int inp qlen = SetBytes inp"
    by (simp add: bits2int_def)
  then show ?thesis
    using bits2int_keeps_msb [of inp qlen] bits2int_shift [of inp qlen]
    by (simp add: mult.commute)
qed

theorem bits2int_keeps_qlen_msb_witness:
  "bits2int [0xAB, 0xCD] 12 = bits_val (take (nat 12) (bits_of [0xAB, 0xCD])) \<and>
   (12::int) < 8 * int (length [0xAB, 0xCD :: byte]) \<and>
   bits2int [0xAB, 0xCD] 12 = 0xABC \<and>
   8 * int (length [0xAB, 0xCD :: byte]) \<le> 16 \<and>
   bits2int [0xAB, 0xCD] 16 = 0xABCD"
  using bits2int_keeps_qlen_msb [of "[0xAB, 0xCD]" 12]
    bits2int_keeps_qlen_msb [of "[0xAB, 0xCD]" 16]
  by (simp add: SetBytes_def)

text \<open>
  C5. For \<open>value \<ge> 0\<close> and \<open>rolen \<ge> 0\<close>, \<open>int2octets(value, rolen)\<close> returns exactly
  \<open>rolen\<close> bytes: the minimal big-endian encoding of \<open>value\<close> (\<open>Bytes\<close>: it decodes to
  \<open>value\<close> and has no leading zero byte) with zero bytes put before it when it is
  shorter than \<open>rolen\<close>, and without its most significant excess bytes when it is
  longer; there is no reduction and no error. In both cases the bytes returned encode
  \<open>value\<close> modulo \<open>256 ^ rolen\<close>, which is \<open>value\<close> itself when nothing is dropped.
\<close>

theorem int2octets_pads_or_drops:
  assumes "0 \<le> v" and "0 \<le> rolen"
  shows "\<exists>out. int2octets v rolen = Inr out \<and> length out = nat rolen \<and>
           SetBytes (Bytes v) = v \<and> (Bytes v \<noteq> [] \<longrightarrow> hd (Bytes v) \<noteq> 0) \<and>
           (length (Bytes v) \<le> nat rolen \<longrightarrow>
              out = replicate (nat rolen - length (Bytes v)) 0 @ Bytes v) \<and>
           (nat rolen < length (Bytes v) \<longrightarrow>
              out = drop (length (Bytes v) - nat rolen) (Bytes v)) \<and>
           SetBytes out = v mod 256 ^ nat rolen"
proof -
  have enc: "SetBytes (Bytes v) = v" using assms by (simp add: SetBytes_Bytes)
  have hd: "Bytes v \<noteq> [] \<longrightarrow> hd (Bytes v) \<noteq> 0"
    unfolding Bytes_def using nat_bytes_hd by blast
  obtain out where o: "int2octets v rolen = Inr out" "length out = nat rolen"
    "SetBytes out = \<bar>v\<bar> mod 256 ^ nat rolen"
    using int2octets_value [OF assms(2)] by blast
  have pad: "length (Bytes v) \<le> nat rolen \<longrightarrow>
      out = replicate (nat rolen - length (Bytes v)) 0 @ Bytes v"
    using int2octets_pad [OF assms(2)] o(1) by auto
  have drp: "nat rolen < length (Bytes v) \<longrightarrow>
      out = drop (length (Bytes v) - nat rolen) (Bytes v)"
    using int2octets_drop [OF assms(2)] o(1) by auto
  have val: "SetBytes out = v mod 256 ^ nat rolen" using o(3) assms(1) by simp
  from o(1,2) enc hd pad drp val show ?thesis by blast
qed

theorem int2octets_pads_or_drops_witness:
  "(0::int) \<le> 0x1234 \<and> (0::int) \<le> 3 \<and> int2octets 0x1234 3 = Inr [0, 0x12, 0x34] \<and>
   (0::int) \<le> 0x123456 \<and> (0::int) \<le> 2 \<and> int2octets 0x123456 2 = Inr [0x34, 0x56]"
proof -
  have a: "Bytes 0x1234 = [0x12, 0x34]"
    by (simp add: Bytes_def nat_bytes.simps)
  have b: "Bytes 0x123456 = [0x12, 0x34, 0x56]"
    by (simp add: Bytes_def nat_bytes.simps)
  have "int2octets 0x1234 3 = Inr [0, 0x12, 0x34]"
    using int2octets_pads_or_drops [of "0x1234" 3] unfolding a
    by (auto simp: numeral_3_eq_3)
  moreover have "int2octets 0x123456 2 = Inr [0x34, 0x56]"
    using int2octets_pads_or_drops [of "0x123456" 2] unfolding b
    by (auto simp: numeral_2_eq_2)
  ultimately show ?thesis by simp
qed

text \<open>
  C6. \<open>bits2octets(input, q, qlen, rolen)\<close> computes \<open>z1 = bits2int(input, qlen)\<close> and
  returns \<open>int2octets(z1, rolen)\<close> when \<open>z1 - q\<close> is negative, and
  \<open>int2octets(z1 - q, rolen)\<close> otherwise. For \<open>rolen \<ge> 0\<close> the result is therefore
  \<open>rolen\<close> bytes that encode \<open>z1\<close>, or \<open>z1 - q\<close>, up to the bytes \<open>int2octets\<close> drops.
\<close>

theorem bits2octets_subtracts_q_once:
  "bits2octets inp q qlen rolen =
     (if bits2int inp qlen - q < 0 then int2octets (bits2int inp qlen) rolen
      else int2octets (bits2int inp qlen - q) rolen) \<and>
   (0 \<le> rolen \<longrightarrow>
      (\<exists>out. bits2octets inp q qlen rolen = Inr out \<and> length out = nat rolen \<and>
         SetBytes out =
           (if bits2int inp qlen - q < 0 then bits2int inp qlen else bits2int inp qlen - q)
             mod 256 ^ nat rolen))"
proof (intro conjI impI)
  show "bits2octets inp q qlen rolen =
     (if bits2int inp qlen - q < 0 then int2octets (bits2int inp qlen) rolen
      else int2octets (bits2int inp qlen - q) rolen)"
    by (simp add: bits2octets_def Let_def)
next
  assume r: "0 \<le> rolen"
  define z where "z = (if bits2int inp qlen - q < 0 then bits2int inp qlen else bits2int inp qlen - q)"
  have "0 \<le> z" using bits2int_nonneg [of inp qlen] by (simp add: z_def)
  then have "\<bar>z\<bar> = z" by simp
  moreover have "bits2octets inp q qlen rolen = int2octets z rolen"
    by (simp add: bits2octets_def Let_def z_def)
  ultimately show "\<exists>out. bits2octets inp q qlen rolen = Inr out \<and> length out = nat rolen \<and>
         SetBytes out =
           (if bits2int inp qlen - q < 0 then bits2int inp qlen else bits2int inp qlen - q)
             mod 256 ^ nat rolen"
    using int2octets_value [OF r, of z] by (simp add: z_def)
qed

theorem bits2octets_subtracts_q_once_witness:
  "bits2octets [0xFF, 0xFF] 0x1F0 9 2 = int2octets (0x1FF - 0x1F0) 2 \<and>
   bits2octets [0xFF, 0xFF] 0x1F0 9 2 = Inr [0x00, 0x0F] \<and>
   bits2octets [0x80, 0x00] 0x1F0 9 2 = int2octets 0x100 2 \<and>
   bits2octets [0x80, 0x00] 0x1F0 9 2 = Inr [0x01, 0x00]"
proof -
  have a: "bits2int [0xFF, 0xFF] 9 = 0x1FF"
    by (simp add: bits2int_def SetBytes_def Rsh_def drop_bit_eq_div)
  have b: "bits2int [0x80, 0x00] 9 = 0x100"
    by (simp add: bits2int_def SetBytes_def Rsh_def drop_bit_eq_div)
  have c: "Bytes 0xF = [0xF]" "Bytes 0x100 = [0x01, 0x00]"
    by (simp_all add: Bytes_def nat_bytes.simps)
  have d: "int2octets 0xF 2 = Inr [0x00, 0x0F]" "int2octets 0x100 2 = Inr [0x01, 0x00]"
    by (simp_all add: int2octets_def c make_bytes_def copy_def)
  have e: "bits2octets [0xFF, 0xFF] 0x1F0 9 2 = int2octets (0x1FF - 0x1F0) 2"
    using bits2octets_subtracts_q_once [THEN conjunct1, of "[0xFF, 0xFF]" "0x1F0" 9 2] by (simp add: a)
  have f: "bits2octets [0x80, 0x00] 0x1F0 9 2 = int2octets 0x100 2"
    using bits2octets_subtracts_q_once [THEN conjunct1, of "[0x80, 0x00]" "0x1F0" 9 2] by (simp add: b)
  from e f d show ?thesis by simp
qed

text \<open>
  C9. For every byte string \<open>hash\<close> and every curve \<open>c\<close>, \<open>hashToInt(hash, c)\<close> is
  \<open>bits2int(hash, qlen')\<close> for \<open>qlen'\<close> the bit length of the order \<open>c.Params().N\<close>:
  cutting the hash to \<open>ceil(qlen'/8)\<close> bytes and shifting out the excess bits that
  remain keeps the same \<open>qlen'\<close> most significant bits.
\<close>

theorem hashToInt_is_bits2int:
  "hashToInt hash c = bits2int hash (int (BitLen (N c))) \<and>
   hashToInt hash c = bits_val (take (BitLen (N c)) (bits_of hash))"
  by (simp add: hashToInt_bits2int bits2int_keeps_msb)

text \<open>
  C10. For every byte string \<open>input\<close> and every \<open>q > 0\<close>, with \<open>qlen\<close> the bit length
  of \<open>q\<close> and \<open>rolen = ceil(qlen/8)\<close>, the integer that
  \<open>bits2octets(input, q, qlen, rolen)\<close> encodes lies in \<open>[0, q)\<close>: one conditional
  subtraction of \<open>q\<close> is enough since \<open>bits2int(input, qlen) < 2^qlen \<le> 2q\<close>, and the
  result fits in \<open>rolen\<close> bytes, so that \<open>int2octets\<close> drops nothing of it.
\<close>

theorem bits2octets_in_range:
  assumes "0 < q"
  shows "\<exists>out. bits2octets inp q (int (BitLen q)) (int ((BitLen q + 7) div 8)) = Inr out \<and>
           length out = (BitLen q + 7) div 8 \<and>
           0 \<le> SetBytes out \<and> SetBytes out < q \<and>
           bits2int inp (int (BitLen q)) < 2 ^ BitLen q \<and> 2 ^ BitLen q \<le> 2 * q \<and>
           SetBytes out = (if bits2int inp (int (BitLen q)) < q then bits2int inp (int (BitLen q))
                           else bits2int inp (int (BitLen q)) - q)"
proof -
  define qlen where "qlen = BitLen q"
  define rolen where "rolen = (qlen + 7) div 8"
  define z1 where "z1 = bits2int inp (int qlen)"
  define z where "z = (if z1 < q then z1 else z1 - q)"
  have z1: "0 \<le> z1" "z1 < 2 ^ qlen"
    using bits2int_nonneg [of inp "int qlen"] bits2int_less [of "int qlen" inp]
    by (simp_all add: z1_def)
  have qu: "q < 2 ^ qlen" using BitLen_upper [of q] assms by (simp add: qlen_def)
  have "0 < qlen" using BitLen_pos [of q] assms by (simp add: qlen_def)
  then have "(2::int) ^ qlen = 2 * 2 ^ (qlen - 1)" by (cases qlen) simp_all
  moreover have "2 ^ (qlen - 1) \<le> q" using BitLen_lower [of q] assms by (simp add: qlen_def)
  ultimately have q2: "2 ^ qlen \<le> 2 * q" by simp
  have z: "0 \<le> z" "z < q" using z1 q2 by (auto simp: z_def)
  have "qlen \<le> 8 * rolen" unfolding rolen_def by simp
  then have "(2::int) ^ qlen \<le> 2 ^ (8 * rolen)" by (rule power_increasing) simp
  also have "\<dots> = 256 ^ rolen" by (simp add: power_mult)
  finally have "z < 256 ^ rolen" using z qu by linarith
  then have len: "length (Bytes z) \<le> rolen" using z by (simp add: length_Bytes_le)
  have b2o: "bits2octets inp q (int qlen) (int rolen) = int2octets z (int rolen)"
    by (simp add: bits2octets_def Let_def z_def z1_def)
  define out where "out = replicate (rolen - length (Bytes z)) (0::byte) @ Bytes z"
  have "int2octets z (int rolen) = Inr out"
    using int2octets_pad [of "int rolen" z] len by (simp add: out_def)
  moreover have "length out = rolen" using len by (simp add: out_def)
  moreover have "SetBytes out = z"
    using z by (simp add: out_def SetBytes_replicate_zero SetBytes_Bytes)
  ultimately show ?thesis
    using b2o z z1 q2
    unfolding qlen_def [symmetric] rolen_def [symmetric] z1_def [symmetric] z_def [symmetric]
    by simp
qed

theorem bits2octets_in_range_witness:
  "(0::int) < 0x100 \<and>
   bits2octets [0xFF, 0xFF] 0x100 (int (BitLen 0x100)) (int ((BitLen 0x100 + 7) div 8))
     = Inr [0x00, 0xFF] \<and>
   SetBytes [0x00, 0xFF] < 0x100"
proof -
  have a: "BitLen 0x100 = 9"
    by (simp add: BitLen_def nat_bitlen.simps)
  have b: "bits2int [0xFF, 0xFF] 9 = 0x1FF"
    by (simp add: bits2int_def SetBytes_def Rsh_def drop_bit_eq_div)
  have c: "Bytes 0xFF = [0xFF]"
    by (simp add: Bytes_def nat_bytes.simps)
  have d: "int2octets 0xFF 2 = Inr [0x00, 0xFF]"
    by (simp add: int2octets_def c make_bytes_def copy_def)
  from bits2octets_in_range [of "0x100" "[0xFF, 0xFF]"]
  obtain out where
    "bits2octets [0xFF, 0xFF] 0x100 (int (BitLen 0x100)) (int ((BitLen 0x100 + 7) div 8)) = Inr out"
    and "SetBytes out < 0x100"
    by auto
  moreover have "bits2octets [0xFF, 0xFF] 0x100 (int (BitLen 0x100)) (int ((BitLen 0x100 + 7) div 8))
      = Inr [0x00, 0xFF]"
    by (simp add: a bits2octets_def b d)
  ultimately show ?thesis by simp
qed

section \<open>The generator: what the specification says of it\<close>

text \<open>
  C1. In every iteration of its main loop, \<open>generateSecret\<close> builds \<open>T\<close> by repeatedly
  setting \<open>V = mac(K, V)\<close> and appending \<open>V\<close> to \<open>T\<close> until \<open>len(T) \<ge> qlen/8\<close> (floor
  division of the bit length of \<open>q\<close>), and then decodes the candidate as
  \<open>bits2int(T, qlen)\<close>. Stated on the model: \<open>generateSecret\<close> is the main loop run with
  \<open>qlen = BitLen q\<close> from the state Steps A to G leave, and from any state \<open>k\<close>, \<open>v\<close>,
  \<open>c\<close> an iteration of the loop never ends when no number of rounds makes \<open>T\<close> long
  enough, and otherwise takes the least number \<open>n\<close> of rounds that does, has
  \<open>T = V\<^sub>1 || ... || V\<^sub>n\<close> and \<open>V = V\<^sub>n\<close>, and goes on with the candidate
  \<open>bits2int(T, qlen)\<close>.
\<close>

theorem generateLoop_builds_T_then_decodes:
  "(\<exists>k v. stepsAtoG q x alg hash = Inr (k, v) \<and>
      generateSecret q x alg hash test c0 = generateLoop q (BitLen q) alg test k v c0) \<and>
   generateLoop q qlen alg test k v c =
     (if \<exists>n. qlen div 8 \<le> length (blocks alg k v n) then
        (let n = (LEAST n. qlen div 8 \<le> length (blocks alg k v n));
             T = blocks alg k v n;
             V = (mac alg k ^^ n) v;
             candidate = bits2int T (int qlen)
         in if 1 \<le> candidate \<and> candidate < q then
              (case test candidate c of
                 Inl p \<Rightarrow> Some (Inl p)
               | Inr (ok, c') \<Rightarrow>
                   if ok then Some (Inr (candidate, c'))
                   else generateLoop q qlen alg test (fst (reseed alg k V)) (snd (reseed alg k V)) c')
            else generateLoop q qlen alg test (fst (reseed alg k V)) (snd (reseed alg k V)) c)
      else None)"
proof (rule conjI)
  obtain k v where kv: "stepsAtoG q x alg hash = Inr (k, v)"
    using stepsAtoG_total by blast
  show "\<exists>k v. stepsAtoG q x alg hash = Inr (k, v) \<and>
      generateSecret q x alg hash test c0 = generateLoop q (BitLen q) alg test k v c0"
    by (intro exI conjI) (rule kv, rule generateSecret_loop [OF kv])
next
  show "generateLoop q qlen alg test k v c =
     (if \<exists>n. qlen div 8 \<le> length (blocks alg k v n) then
        (let n = (LEAST n. qlen div 8 \<le> length (blocks alg k v n));
             T = blocks alg k v n;
             V = (mac alg k ^^ n) v;
             candidate = bits2int T (int qlen)
         in if 1 \<le> candidate \<and> candidate < q then
              (case test candidate c of
                 Inl p \<Rightarrow> Some (Inl p)
               | Inr (ok, c') \<Rightarrow>
                   if ok then Some (Inr (candidate, c'))
                   else generateLoop q qlen alg test (fst (reseed alg k V)) (snd (reseed alg k V)) c')
            else generateLoop q qlen alg test (fst (reseed alg k V)) (snd (reseed alg k V)) c)
      else None)"
  proof (cases "\<exists>n. qlen div 8 \<le> length (blocks alg k v n)")
    case True
    show ?thesis
      by (subst generateLoop_unfold)
         (simp only: stepH_Least [OF True] True if_True Let_def option.case prod.case)
  next
    case False
    then have "\<forall>n. length (blocks alg k v n) < qlen div 8" by (simp add: not_le)
    then have "stepH alg k qlen v = None" by (rule stepH_None)
    then show ?thesis using False by (subst generateLoop_unfold) simp
  qed
qed

theorem generateLoop_builds_T_then_decodes_witness:
  "stepsAtoG 0xFFF1 5 toyAlg [7] = Inr ([124], [137]) \<and>
   (LEAST n. 16 div 8 \<le> length (blocks toyAlg [124] [137] n)) = 2 \<and>
   blocks toyAlg [124] [137] 2 = [90, 43] \<and>
   bits2int [90, 43] 16 = 23083 \<and>
   generateLoop 0xFFF1 16 toyAlg (\<lambda>k c. Inr (True, c)) [124] [137] () = Some (Inr (23083, ()))"
proof -
  have bl: "BitLen 0xFFF1 = 16"
    by (simp add: BitLen_def nat_bitlen.simps)
  have by5: "Bytes 5 = [5]" and by7: "Bytes 7 = [7]"
    by (simp_all add: Bytes_def nat_bytes.simps)
  have i1: "int2octets 5 2 = Inr [0, 5]"
    by (simp add: int2octets_def by5 make_bytes_def copy_def)
  have i2: "bits2octets [7] 0xFFF1 16 2 = Inr [0, 7]"
    by (simp add: bits2octets_def bits2int_def SetBytes_def int2octets_def by7
        make_bytes_def copy_def)
  have s: "stepsAtoG 0xFFF1 5 toyAlg [7] = Inr ([124], [137])"
    by (simp add: stepsAtoG_def bl drop_bit_eq_div i1 i2 mac_def toyAlg_def)
  have b0: "blocks toyAlg [124] [137] 0 = []" by (rule blocks_0)
  have b1: "blocks toyAlg [124] [137] 1 = [90]" by code_simp
  have b2: "blocks toyAlg [124] [137] 2 = [90, 43]" by code_simp
  have d: "bits2int [90, 43] 16 = 23083"
    by (simp add: bits2int_def SetBytes_def)
  have least: "(LEAST n. 16 div 8 \<le> length (blocks toyAlg [124] [137] n)) = 2"
  proof (rule Least_equality)
    show "16 div 8 \<le> length (blocks toyAlg [124] [137] 2)" by (simp add: b2)
  next
    fix y :: nat
    assume y: "16 div 8 \<le> length (blocks toyAlg [124] [137] y)"
    show "2 \<le> y"
    proof (rule ccontr)
      assume "\<not> 2 \<le> y"
      then have "y = 0 \<or> y = 1" by arith
      then show False using y b0 b1 by auto
    qed
  qed
  have ex: "\<exists>n. 16 div 8 \<le> length (blocks toyAlg [124] [137] n)"
    by (rule exI [of _ 2]) (simp add: b2)
  have "generateLoop 0xFFF1 16 toyAlg (\<lambda>k c. Inr (True, c)) [124] [137] ()
      = Some (Inr (23083, ()))"
    by (subst generateLoop_builds_T_then_decodes [THEN conjunct2])
       (simp only: ex least, simp add: b2 d)
  with s least b2 d show ?thesis by (simp only: simp_thms)
qed

text \<open>
  C2. Every candidate \<open>generateSecret\<close> passes to the acceptance predicate satisfies
  \<open>1 \<le> candidate < q\<close>; the predicate is never called on a candidate outside that
  range. Stated on the model: two predicates that answer alike on every candidate of
  \<open>[1, q)\<close> give the same run, whatever they do elsewhere; and when a run with a
  predicate that records the candidates it is called with returns, every recorded
  candidate, and the accepted one, lies in \<open>[1, q)\<close>.
\<close>

theorem generateSecret_tests_only_in_range:
  "((\<forall>k c. 1 \<le> k \<and> k < q \<longrightarrow> test k c = test' k c) \<longrightarrow>
      generateSecret q x alg hash test c0 = generateSecret q x alg hash test' c0) \<and>
   (generateSecret q x alg hash (logged test) ([], c0) = Some (Inr (secret, (log, c'))) \<longrightarrow>
      (\<forall>k\<in>set log. 1 \<le> k \<and> k < q) \<and> 1 \<le> secret \<and> secret < q)"
proof (intro conjI impI)
  assume "\<forall>k c. 1 \<le> k \<and> k < q \<longrightarrow> test k c = test' k c"
  then show "generateSecret q x alg hash test c0 = generateSecret q x alg hash test' c0"
    by (rule generateSecret_agree)
next
  assume run: "generateSecret q x alg hash (logged test) ([], c0) = Some (Inr (secret, (log, c')))"
  from generateSecret_logged [OF run] show "\<forall>k\<in>set log. 1 \<le> k \<and> k < q" .
  from generateSecret_accept [OF run] show "1 \<le> secret" "secret < q" by simp_all
qed

theorem generateSecret_tests_only_in_range_witness:
  "generateSecret 131 5 toyAlg [7] (logged (\<lambda>k c. Inr (k = 48, c))) ([], ())
     = Some (Inr (48, ([90, 90, 48], ()))) \<and>
   list_all (\<lambda>k. 1 \<le> k \<and> k < 131) [90, 90, 48 :: int] \<and>
   generateSecret 131 5 toyAlg [7]
       (\<lambda>k c. if 1 \<le> k \<and> k < 131 then Inr (k = 48, c) else Inl NilDeref) ()
     = Some (Inr (48, ()))"
proof -
  have a: "generateSecret 131 5 toyAlg [7] (logged (\<lambda>k c. Inr (k = 48, c))) ([], ())
     = Some (Inr (48, ([90, 90, 48], ())))"
    by code_simp
  have b: "\<forall>k\<in>set [90, 90, 48 :: int]. 1 \<le> k \<and> k < 131"
    by (rule generateSecret_tests_only_in_range [THEN conjunct2, THEN mp, OF a, THEN conjunct1])
  have "\<forall>k c. 1 \<le> k \<and> k < 131 \<longrightarrow>
      (if 1 \<le> k \<and> k < 131 then Inr (k = 48, c) else Inl NilDeref)
        = (Inr (k = 48, c) :: panic + bool \<times> unit)"
    by simp
  then have "generateSecret 131 5 toyAlg [7]
       (\<lambda>k c. if 1 \<le> k \<and> k < 131 then Inr (k = 48, c) else Inl NilDeref) ()
     = generateSecret 131 5 toyAlg [7] (\<lambda>k c. Inr (k = 48, c)) ()"
    by (rule generateSecret_tests_only_in_range [THEN conjunct1, THEN mp])
  also have "\<dots> = Some (Inr (48, ()))"
    by code_simp
  finally have c: "generateSecret 131 5 toyAlg [7]
       (\<lambda>k c. if 1 \<le> k \<and> k < 131 then Inr (k = 48, c) else Inl NilDeref) ()
     = Some (Inr (48, ()))" .
  from a b c show ?thesis by (simp only: list_all_iff simp_thms)
qed

text \<open>
  C3. For fixed \<open>q\<close>, \<open>x\<close>, MAC and digest and a fixed deterministic acceptance predicate,
  any two invocations of \<open>generateSecret\<close> accept the same candidate, and the signatures
  \<open>(r, s)\<close> of \<open>SignDSA\<close> and \<open>SignECDSA\<close> are the same on every run on the same inputs.
  In the model a run is a function of its inputs, and the only other state a run starts
  from is what the variables captured by the predicate hold. Stated on the model: two
  runs whose predicates give the same verdict on every candidate, whatever the state of
  their captured variables, end alike (the same accepted candidate, the same panic, or
  both never return); and when a signer returns \<open>(r, s)\<close>, the generator run with the
  signer's predicate accepts one and the same candidate and leaves that \<open>(r, s)\<close>
  whatever \<open>r\<close> and \<open>s\<close> held before.
\<close>

theorem generateSecret_deterministic:
  "((\<forall>k c c'. verdict (test k c) = verdict (test' k c')) \<longrightarrow>
      accepted (generateSecret q x alg hash test c1) =
      accepted (generateSecret q x alg hash test' c2)) \<and>
   (SignDSA priv hash alg = Some (Inr (r, s, None)) \<longrightarrow>
      (\<exists>k. \<forall>c. generateSecret (Q priv) (X priv) alg hash (dsaTest priv hash) c
                 = Some (Inr (k, (r, s))))) \<and>
   (SignECDSA epriv hash alg = Some (Inr (r, s, None)) \<longrightarrow>
      (\<exists>k. \<forall>c. generateSecret (N (PublicKey_Curve epriv)) (D epriv) alg hash
                   (ecdsaTest epriv hash) c
                 = Some (Inr (k, (r, s)))))"
proof (intro conjI impI)
  assume "\<forall>k c c'. verdict (test k c) = verdict (test' k c')"
  then show "accepted (generateSecret q x alg hash test c1) =
      accepted (generateSecret q x alg hash test' c2)"
    by (rule generateSecret_verdict)
next
  assume "SignDSA priv hash alg = Some (Inr (r, s, None))"
  then obtain k where k: "generateSecret (Q priv) (X priv) alg hash (dsaTest priv hash) (None, None)
      = Some (Inr (k, (r, s)))"
    by (auto simp: SignDSA_def Let_def split: if_splits option.splits sum.splits)
  have "\<forall>c. generateSecret (Q priv) (X priv) alg hash (dsaTest priv hash) c = Some (Inr (k, (r, s)))"
  proof
    fix c
    show "generateSecret (Q priv) (X priv) alg hash (dsaTest priv hash) c = Some (Inr (k, (r, s)))"
      using k generateSecret_dsa_forgets [of "Q priv" "X priv" alg hash priv hash c "(None, None)"]
      by simp
  qed
  then show "\<exists>k. \<forall>c. generateSecret (Q priv) (X priv) alg hash (dsaTest priv hash) c
                 = Some (Inr (k, (r, s)))" ..
next
  assume "SignECDSA epriv hash alg = Some (Inr (r, s, None))"
  then obtain k where k: "generateSecret (N (PublicKey_Curve epriv)) (D epriv) alg hash
      (ecdsaTest epriv hash) (None, None) = Some (Inr (k, (r, s)))"
    by (auto simp: SignECDSA_def Let_def split: if_splits option.splits sum.splits)
  have "\<forall>c. generateSecret (N (PublicKey_Curve epriv)) (D epriv) alg hash
      (ecdsaTest epriv hash) c = Some (Inr (k, (r, s)))"
  proof
    fix c
    show "generateSecret (N (PublicKey_Curve epriv)) (D epriv) alg hash
      (ecdsaTest epriv hash) c = Some (Inr (k, (r, s)))"
      using k generateSecret_ecdsa_forgets [of "N (PublicKey_Curve epriv)" "D epriv" alg hash
          epriv hash c "(None, None)"]
      by simp
  qed
  then show "\<exists>k. \<forall>c. generateSecret (N (PublicKey_Curve epriv)) (D epriv) alg hash
                   (ecdsaTest epriv hash) c = Some (Inr (k, (r, s)))" ..
qed

theorem generateSecret_deterministic_witness:
  "accepted (generateSecret 131 5 toyAlg [7] (\<lambda>k c. Inr (k = 48, c)) ()) = Some (Inr 48) \<and>
   accepted (generateSecret 131 5 toyAlg [7] (logged (\<lambda>k c. Inr (k = 48, c))) ([7, 7], ()))
     = Some (Inr 48) \<and>
   SignDSA toyKey [7] toyAlg = Some (Inr (Some 45, Some 87, None)) \<and>
   generateSecret (Q toyKey) (X toyKey) toyAlg [7] (dsaTest toyKey [7]) (Some 1, None)
     = Some (Inr (90, (Some 45, Some 87))) \<and>
   SignECDSA toyEKey [7] toyAlg = Some (Inr (Some 8, Some 34, None)) \<and>
   generateSecret (N (PublicKey_Curve toyEKey)) (D toyEKey) toyAlg [7] (ecdsaTest toyEKey [7])
       (None, Some 2)
     = Some (Inr (90, (Some 8, Some 34)))"
proof -
  have a: "accepted (generateSecret 131 5 toyAlg [7] (\<lambda>k c. Inr (k = 48, c)) ()) = Some (Inr 48)"
    by code_simp
  have "\<forall>k c c'. verdict ((\<lambda>k (c::unit). (Inr (k = 48, c) :: panic + bool \<times> unit)) k c)
      = verdict (logged (\<lambda>k c. Inr (k = 48, c)) k c')"
    by (simp add: logged_def split: prod.splits)
  then have "accepted (generateSecret 131 5 toyAlg [7] (\<lambda>k c. Inr (k = 48, c)) ())
     = accepted (generateSecret 131 5 toyAlg [7] (logged (\<lambda>k c. Inr (k = 48, c))) ([7, 7], ()))"
    by (rule generateSecret_deterministic [THEN conjunct1, THEN mp])
  then have b: "accepted (generateSecret 131 5 toyAlg [7] (logged (\<lambda>k c. Inr (k = 48, c)))
       ([7, 7], ()))
     = Some (Inr 48)"
    using a by simp
  have c: "SignDSA toyKey [7] toyAlg = Some (Inr (Some 45, Some 87, None))"
    by code_simp
  have d: "SignECDSA toyEKey [7] toyAlg = Some (Inr (Some 8, Some 34, None))"
    by code_simp
  have e0: "generateSecret (Q toyKey) (X toyKey) toyAlg [7] (dsaTest toyKey [7]) (None, None)
     = Some (Inr (90, (Some 45, Some 87)))"
    by code_simp
  have f0: "generateSecret (N (PublicKey_Curve toyEKey)) (D toyEKey) toyAlg [7]
       (ecdsaTest toyEKey [7]) (None, None)
     = Some (Inr (90, (Some 8, Some 34)))"
    by code_simp
  from generateSecret_deterministic [THEN conjunct2, THEN conjunct1, THEN mp, OF c]
  obtain k where k: "\<forall>c. generateSecret (Q toyKey) (X toyKey) toyAlg [7] (dsaTest toyKey [7]) c
      = Some (Inr (k, (Some 45, Some 87)))" ..
  from k [rule_format, of "(None, None)"] e0 have "k = 90" by simp
  with k have e: "generateSecret (Q toyKey) (X toyKey) toyAlg [7] (dsaTest toyKey [7]) (Some 1, None)
     = Some (Inr (90, (Some 45, Some 87)))" by simp
  from generateSecret_deterministic [THEN conjunct2, THEN conjunct2, THEN mp, OF d]
  obtain k' where k': "\<forall>c. generateSecret (N (PublicKey_Curve toyEKey)) (D toyEKey) toyAlg [7]
       (ecdsaTest toyEKey [7]) c = Some (Inr (k', (Some 8, Some 34)))" ..
  from k' [rule_format, of "(None, None)"] f0 have "k' = 90" by simp
  with k' have f: "generateSecret (N (PublicKey_Curve toyEKey)) (D toyEKey) toyAlg [7]
       (ecdsaTest toyEKey [7]) (None, Some 2)
     = Some (Inr (90, (Some 8, Some 34)))" by simp
  from a b c d e f show ?thesis by (simp only: simp_thms)
qed

section \<open>The signers: what the specification says of them\<close>

text \<open>
  C7. \<open>SignDSA\<close> returns the invalid-domain-parameters error exactly when the bit
  length of \<open>q\<close> is not a multiple of 8, and then at once, before \<open>generateSecret\<close> and
  any other computation, with \<open>r\<close> and \<open>s\<close> unset. Stated on the model: when
  \<open>BitLen Q\<close> is not a multiple of 8 the result is \<open>(nil, nil, ErrInvalidPublicKey)\<close>
  for every hash, MAC and key, also where \<open>generateSecret\<close> would never return; when it
  is a multiple of 8 no error is returned.
\<close>

theorem SignDSA_error_iff_unaligned:
  "(BitLen (Q priv) mod 8 \<noteq> 0 \<longrightarrow>
      SignDSA priv hash alg = Some (Inr (None, None, Some ErrInvalidPublicKey))) \<and>
   (BitLen (Q priv) mod 8 = 0 \<longrightarrow>
      (\<forall>r s e. SignDSA priv hash alg \<noteq> Some (Inr (r, s, Some e))))"
  by (auto simp: SignDSA_def and7 Let_def split: option.splits sum.splits)

theorem SignDSA_error_iff_unaligned_witness:
  "BitLen (Q oddKey) mod 8 \<noteq> 0 \<and>
   SignDSA oddKey [7] emptyAlg = Some (Inr (None, None, Some ErrInvalidPublicKey)) \<and>
   generateSecret (Q oddKey) (X oddKey) emptyAlg [7] (dsaTest oddKey [7]) (None, None) = None \<and>
   BitLen (Q toyKey) mod 8 = 0 \<and>
   SignDSA toyKey [7] toyAlg = Some (Inr (Some 45, Some 87, None))"
proof -
  have a: "BitLen (Q oddKey) = 9"
    by (simp add: oddKey_def BitLen_def nat_bitlen.simps)
  have b: "BitLen (Q toyKey) = 8"
    by (simp add: toyKey_def BitLen_def nat_bitlen.simps)
  have c: "SignDSA oddKey [7] emptyAlg = Some (Inr (None, None, Some ErrInvalidPublicKey))"
    using SignDSA_error_iff_unaligned [of oddKey "[7]" emptyAlg] a by simp
  have d: "generateSecret (Q oddKey) (X oddKey) emptyAlg [7] (dsaTest oddKey [7]) (None, None)
      = None"
    by (simp add: oddKey_def emptyAlg_diverges)
  have e: "SignDSA toyKey [7] toyAlg = Some (Inr (Some 45, Some 87, None))"
    by code_simp
  from a b c d e show ?thesis by simp
qed

text \<open>
  C8. Whenever \<open>SignECDSA\<close> or \<open>SignDSA\<close> returns without error, \<open>r\<close> and \<open>s\<close> are set and
  \<open>1 \<le> r < q\<close> and \<open>1 \<le> s < q\<close>: each acceptance predicate reduces \<open>r\<close> and \<open>s\<close> modulo
  \<open>q\<close> and turns the candidate down when \<open>r = 0\<close> or \<open>s = 0\<close>.
\<close>

theorem signature_components_in_range:
  "(SignDSA priv hash alg = Some (Inr (r, s, None)) \<longrightarrow>
      (\<exists>r' s'. r = Some r' \<and> s = Some s' \<and>
         1 \<le> r' \<and> r' < Q priv \<and> 1 \<le> s' \<and> s' < Q priv)) \<and>
   (SignECDSA epriv hash alg = Some (Inr (r, s, None)) \<longrightarrow>
      (\<exists>r' s'. r = Some r' \<and> s = Some s' \<and>
         1 \<le> r' \<and> r' < N (PublicKey_Curve epriv) \<and>
         1 \<le> s' \<and> s' < N (PublicKey_Curve epriv)))"
proof (intro conjI impI)
  assume "SignDSA priv hash alg = Some (Inr (r, s, None))"
  then obtain k where run: "generateSecret (Q priv) (X priv) alg hash (dsaTest priv hash) (None, None)
      = Some (Inr (k, (r, s)))"
    by (auto simp: SignDSA_def Let_def split: if_splits option.splits sum.splits)
  from generateSecret_accept [OF run] obtain c0 where
    k: "1 \<le> k" "k < Q priv" and t: "dsaTest priv hash k c0 = Inr (True, (r, s))"
    by blast
  from k have "\<bar>Q priv\<bar> = Q priv" by simp
  with dsaTest_accept [OF t]
  show "\<exists>r' s'. r = Some r' \<and> s = Some s' \<and> 1 \<le> r' \<and> r' < Q priv \<and> 1 \<le> s' \<and> s' < Q priv"
    by auto
next
  assume "SignECDSA epriv hash alg = Some (Inr (r, s, None))"
  then obtain k where run: "generateSecret (N (PublicKey_Curve epriv)) (D epriv) alg hash
      (ecdsaTest epriv hash) (None, None) = Some (Inr (k, (r, s)))"
    by (auto simp: SignECDSA_def Let_def split: if_splits option.splits sum.splits)
  from generateSecret_accept [OF run] obtain c0 where
    k: "1 \<le> k" "k < N (PublicKey_Curve epriv)"
    and t: "ecdsaTest epriv hash k c0 = Inr (True, (r, s))"
    by blast
  from k have "\<bar>N (PublicKey_Curve epriv)\<bar> = N (PublicKey_Curve epriv)" by simp
  with ecdsaTest_accept [OF t]
  show "\<exists>r' s'. r = Some r' \<and> s = Some s' \<and> 1 \<le> r' \<and> r' < N (PublicKey_Curve epriv) \<and>
      1 \<le> s' \<and> s' < N (PublicKey_Curve epriv)"
    by auto
qed

theorem signature_components_in_range_witness:
  "SignDSA toyKey [7] toyAlg = Some (Inr (Some 45, Some 87, None)) \<and>
   (1::int) \<le> 45 \<and> 45 < Q toyKey \<and> (1::int) \<le> 87 \<and> 87 < Q toyKey \<and>
   SignECDSA toyEKey [7] toyAlg = Some (Inr (Some 8, Some 34, None)) \<and>
   (1::int) \<le> 8 \<and> 8 < N (PublicKey_Curve toyEKey) \<and>
   (1::int) \<le> 34 \<and> 34 < N (PublicKey_Curve toyEKey)"
proof -
  have a: "SignDSA toyKey [7] toyAlg = Some (Inr (Some 45, Some 87, None))"
    by code_simp
  have b: "SignECDSA toyEKey [7] toyAlg = Some (Inr (Some 8, Some 34, None))"
    by code_simp
  have "\<exists>r' s'. Some 45 = Some r' \<and> Some 87 = Some s' \<and>
      1 \<le> r' \<and> r' < Q toyKey \<and> 1 \<le> s' \<and> s' < Q toyKey"
    by (rule signature_components_in_range [THEN conjunct1, THEN mp, OF a])
  then have c: "(1::int) \<le> 45 \<and> 45 < Q toyKey \<and> (1::int) \<le> 87 \<and> 87 < Q toyKey"
    by (elim exE conjE) simp
  have "\<exists>r' s'. Some 8 = Some r' \<and> Some 34 = Some s' \<and>
      1 \<le> r' \<and> r' < N (PublicKey_Curve toyEKey) \<and> 1 \<le> s' \<and> s' < N (PublicKey_Curve toyEKey)"
    by (rule signature_components_in_range [THEN conjunct2, THEN mp, OF b])
  then have d: "(1::int) \<le> 8 \<and> 8 < N (PublicKey_Curve toyEKey) \<and>
      (1::int) \<le> 34 \<and> 34 < N (PublicKey_Curve toyEKey)"
    by (elim exE conjE) simp
  from a b c d show ?thesis by (simp only: simp_thms)
qed

end
